theory Spec2Isabelle
  imports Main "HOL-Library.Sublist" "HOL-Library.AList"
begin

section \<open>The replicator script \<^verbatim>\<open>Run.py\<close>\<close>

text \<open>
  \<^verbatim>\<open>Run.py\<close> creates the target root, then, once per copy index \<open>i\<close>, walks the
  source tree with \<^verbatim>\<open>os.walk\<close>, mirrors every visited directory under the target root
  with \<^verbatim>\<open>os.makedirs(..., exist_ok=True)\<close> and copies every file of that directory with
  \<^verbatim>\<open>shutil.copy\<close> to a name that carries the index.  Its last line prints a completion
  message.

  The script itself has no data structures; everything it does is an effect on the file
  system or on standard output.  The development therefore models the file system as an
  explicit state and the library calls of the script (\<^verbatim>\<open>os.path.splitext\<close>, the f-string, \<^verbatim>\<open>os.makedirs\<close>,
  \<^verbatim>\<open>os.walk\<close>, \<^verbatim>\<open>shutil.copy\<close>) as functions on that state, following the documented
  behaviour of the CPython standard library.  An exception is a value: a primitive returns
  \<open>Inl e\<close> and leaves the state as it is, a loop returns \<open>Inl (e, fs)\<close> where \<open>fs\<close> is
  the file system at the moment the exception leaves the script.
\<close>

subsection \<open>File names\<close>

text \<open>
  \<^verbatim>\<open>os.path.splitext\<close> applied to a directory entry.  An entry name holds no path
  separator, so the separator index of the library function is \<open>-1\<close>: the extension
  starts at the last dot, unless every character before that dot is a dot too
  (\<^verbatim>\<open>.bashrc\<close>, \<^verbatim>\<open>...\<close>), in which case the extension is empty.
\<close>

definition splitext :: "string \<Rightarrow> string \<times> string" where
  "splitext p =
     (if CHR ''.'' \<in> set p then
        (let dotIndex = length p - 1 - length (takeWhile (\<lambda>c. c \<noteq> CHR ''.'') (rev p))
         in if \<exists>c \<in> set (take dotIndex p). c \<noteq> CHR ''.''
            then (take dotIndex p, drop dotIndex p)
            else (p, []))
      else (p, []))"

text \<open>The decimal numeral that the f-string prints for the copy index.\<close>

definition digit :: "nat \<Rightarrow> char" where
  "digit d = ''0123456789'' ! d"

function py_str :: "nat \<Rightarrow> string" where
  "py_str n = (if n < 10 then [digit n] else py_str (n div 10) @ [digit (n mod 10)])"
  by pat_completeness auto
termination
  by (relation "measure id") auto

declare py_str.simps [simp del]

definition is_digit :: "char \<Rightarrow> bool" where
  "is_digit c = (c \<in> set ''0123456789'')"

text \<open>
  \<^verbatim>\<open>name, ext = os.path.splitext(file); new_filename = f"{name}_copy{i}{ext}"\<close>
\<close>

definition new_filename :: "string \<Rightarrow> nat \<Rightarrow> string" where
  "new_filename file i =
     (case splitext file of (name, ext) \<Rightarrow> name @ ''_copy'' @ py_str i @ ext)"

subsection \<open>The file system\<close>

text \<open>
  A path is the list of its components below the drive root; the root itself is \<open>[]\<close>.
  A node is a regular file with its bytes or a directory.  The file system is the list of
  its entries; the order of the list is the order in which the operating system
  enumerates them, which is all that \<^verbatim>\<open>os.walk\<close> takes from it.  Symbolic links,
  permissions and case-insensitive name matching are not modelled.
\<close>

type_synonym path = "string list"

type_synonym bytes = string

datatype node = File bytes | Dir

type_synonym fs = "(path \<times> node) list"

datatype error = FileExistsError | FileNotFoundError | NotADirectoryError
  | IsADirectoryError | SameFileError | UnicodeEncodeError

type_synonym result = "(error \<times> fs) + fs"

definition lookup :: "fs \<Rightarrow> path \<Rightarrow> node option" where
  "lookup fs p = map_of fs p"

definition exists :: "fs \<Rightarrow> path \<Rightarrow> bool" where
  "exists fs p = (lookup fs p \<noteq> None)"

definition isdir :: "fs \<Rightarrow> path \<Rightarrow> bool" where
  "isdir fs p = (lookup fs p = Some Dir)"

definition isfile :: "fs \<Rightarrow> path \<Rightarrow> bool" where
  "isfile fs p = (case lookup fs p of Some (File c) \<Rightarrow> True | _ \<Rightarrow> False)"

text \<open>
  A file system is well formed when the root is a directory and every entry lies in a
  directory.
\<close>

definition wf_fs :: "fs \<Rightarrow> bool" where
  "wf_fs fs = (isdir fs [] \<and> list_all (\<lambda>(p, n). p = [] \<or> isdir fs (butlast p)) fs)"

text \<open>\<^verbatim>\<open>os.mkdir\<close>: the path must be free and its parent must be a directory.\<close>

definition mkdir :: "fs \<Rightarrow> path \<Rightarrow> error + fs" where
  "mkdir fs p =
     (if exists fs p then Inl FileExistsError
      else case lookup fs (butlast p) of
             None \<Rightarrow> Inl FileNotFoundError
           | Some (File c) \<Rightarrow> Inl NotADirectoryError
           | Some Dir \<Rightarrow> Inr (AList.update p Dir fs))"

text \<open>
  \<^verbatim>\<open>os.makedirs(name, exist_ok=True)\<close>, as the library writes it: when the parent is
  missing it is created first by a recursive call, whose \<^verbatim>\<open>FileExistsError\<close> alone is
  swallowed; then \<^verbatim>\<open>mkdir(name)\<close> runs, and its error is swallowed exactly when \<open>name\<close>
  is a directory already.
\<close>

function makedirs :: "fs \<Rightarrow> path \<Rightarrow> error + fs" where
  "makedirs fs name =
     (case (if name \<noteq> [] \<and> \<not> exists fs (butlast name)
            then (case makedirs fs (butlast name) of
                    Inl FileExistsError \<Rightarrow> Inr fs
                  | Inl e \<Rightarrow> Inl e
                  | Inr fs' \<Rightarrow> Inr fs')
            else Inr fs) of
        Inl e \<Rightarrow> Inl e
      | Inr fs1 \<Rightarrow>
          (case mkdir fs1 name of
             Inl e \<Rightarrow> if isdir fs1 name then Inr fs1 else Inl e
           | Inr fs2 \<Rightarrow> Inr fs2))"
  by pat_completeness auto
termination
  by (relation "measure (\<lambda>(fs, name). length name)") auto

declare makedirs.simps [simp del]

text \<open>
  \<^verbatim>\<open>shutil.copyfile\<close>: source and destination must differ, the source is opened for
  reading (it must be a regular file), the destination for writing (it must not be a
  directory, and its parent must be one); the bytes of the source become the bytes of the
  destination.
\<close>

definition copyfile :: "fs \<Rightarrow> path \<Rightarrow> path \<Rightarrow> error + fs" where
  "copyfile fs src dst =
     (if src = dst then Inl SameFileError
      else case lookup fs src of
             None \<Rightarrow> Inl FileNotFoundError
           | Some Dir \<Rightarrow> Inl IsADirectoryError
           | Some (File c) \<Rightarrow>
               (case lookup fs dst of
                  Some Dir \<Rightarrow> Inl IsADirectoryError
                | Some (File old) \<Rightarrow> Inr (AList.update dst (File c) fs)
                | None \<Rightarrow>
                    (case lookup fs (butlast dst) of
                       None \<Rightarrow> Inl FileNotFoundError
                     | Some (File x) \<Rightarrow> Inl NotADirectoryError
                     | Some Dir \<Rightarrow> Inr (AList.update dst (File c) fs))))"

definition basename :: "path \<Rightarrow> path" where
  "basename p = (case p of [] \<Rightarrow> [] | _ \<Rightarrow> [last p])"

text \<open>
  \<^verbatim>\<open>shutil.copy(src, dst)\<close>: when \<open>dst\<close> is a directory the file is copied into it
  under the base name of \<open>src\<close>; otherwise \<open>dst\<close> is the file to write.
\<close>

definition shutil_copy :: "fs \<Rightarrow> path \<Rightarrow> path \<Rightarrow> error + fs" where
  "shutil_copy fs src dst =
     copyfile fs src (if isdir fs dst then dst @ basename src else dst)"

text \<open>The names in a directory, in the order of the entry list.\<close>

definition scandir :: "fs \<Rightarrow> path \<Rightarrow> string list" where
  "scandir fs tdir =
     remdups (map last (filter (\<lambda>q. q \<noteq> [] \<and> butlast q = tdir) (map fst fs)))"

text \<open>
  \<^verbatim>\<open>os.walk(top)\<close>, top-down: the triple of the directory itself comes first, then the
  walks of its subdirectories in the order of \<open>dirs\<close>.  A top that is not a directory
  (missing, or a regular file) makes the scan fail, and \<^verbatim>\<open>os.walk\<close> ignores that error:
  it yields nothing.  The generator is lazy; the list below is what it yields while the
  loop body leaves the tree under \<open>top\<close> alone, which is the case when the source and the
  target root do not contain one another, as for the two roots of the script.
\<close>

function os_walk :: "fs \<Rightarrow> path \<Rightarrow> (path \<times> string list \<times> string list) list" where
  "os_walk fs tdir =
     (if isdir fs tdir then
        (let dirs = filter (\<lambda>n. isdir fs (tdir @ [n])) (scandir fs tdir);
             nondirs = filter (\<lambda>n. \<not> isdir fs (tdir @ [n])) (scandir fs tdir)
         in (tdir, dirs, nondirs) # concat (map (\<lambda>d. os_walk fs (tdir @ [d])) dirs))
      else [])"
  by pat_completeness auto
termination
proof (relation "measure (\<lambda>(fs, tdir). length (filter (strict_prefix tdir) (map fst fs)))",
    goal_cases)
  case 1
  then show ?case by simp
next
  case (2 fs tdir dirs nondirs d)
  have le: "length (filter P xs) \<le> length (filter Q xs)"
    if "\<And>x. x \<in> set xs \<Longrightarrow> P x \<Longrightarrow> Q x" for P Q and xs :: "path list"
    using that by (induction xs) (auto simp: le_Suc_eq)
  have less: "length (filter P xs) < length (filter Q xs)"
    if "\<And>x. P x \<Longrightarrow> Q x" "y \<in> set xs" "Q y" "\<not> P y" for P Q y and xs :: "path list"
    using that
  proof (induction xs)
    case Nil
    then show ?case by simp
  next
    case (Cons a xs)
    show ?case
    proof (cases "y = a")
      case True
      then show ?thesis using Cons.prems le[of xs P Q] by (auto simp: less_Suc_eq_le)
    next
      case False
      then have "length (filter P xs) < length (filter Q xs)"
        using Cons by auto
      then show ?thesis using Cons.prems(1)[of a] by auto
    qed
  qed
  from 2 have "d \<in> set (scandir fs tdir)" by simp
  then obtain q where q: "q \<in> set (map fst fs)" "q \<noteq> []" "butlast q = tdir" "last q = d"
    by (auto simp: scandir_def)
  then have "q = tdir @ [d]" using append_butlast_last_id[of q] by simp
  with q have mem: "tdir @ [d] \<in> set (map fst fs)" by simp
  have "length (filter (strict_prefix (tdir @ [d])) (map fst fs))
        < length (filter (strict_prefix tdir) (map fst fs))"
  proof (rule less[where y = "tdir @ [d]"])
    fix x assume "strict_prefix (tdir @ [d]) x"
    then show "strict_prefix tdir x"
      by (metis append_prefixD strict_prefix_def strict_prefixI' prefix_order.less_le_not_le)
  qed (use mem in \<open>auto simp: strict_prefix_def\<close>)
  then show ?case by simp
qed

declare os_walk.simps [simp del]

subsection \<open>The script\<close>

text \<open>
  \<^verbatim>\<open>os.path.relpath(root, SOURCE_DIR)\<close> for a \<open>root\<close> that \<^verbatim>\<open>os.walk(SOURCE_DIR)\<close>
  yields: the components of \<open>root\<close> after those of the source root.  For the source root
  itself Python returns \<^verbatim>\<open>"."\<close>, which names the directory it is joined to, so the
  component list is empty.
\<close>

definition relpath :: "path \<Rightarrow> path \<Rightarrow> path" where
  "relpath p start = drop (length start) p"

text \<open>The inner loop, \<^verbatim>\<open>for file in files\<close>.\<close>

fun copy_files :: "path \<Rightarrow> path \<Rightarrow> nat \<Rightarrow> string list \<Rightarrow> fs \<Rightarrow> result" where
  "copy_files root dest_path i [] fs = Inr fs"
| "copy_files root dest_path i (file # files) fs =
     (let src_file = root @ [file];
          dst_file = dest_path @ [new_filename file i]
      in case shutil_copy fs src_file dst_file of
           Inl e \<Rightarrow> Inl (e, fs)
         | Inr fs' \<Rightarrow> copy_files root dest_path i files fs')"

text \<open>The middle loop, \<^verbatim>\<open>for root, dirs, files in os.walk(SOURCE_DIR)\<close>.\<close>

fun walk_loop ::
  "path \<Rightarrow> path \<Rightarrow> nat \<Rightarrow> (path \<times> string list \<times> string list) list \<Rightarrow> fs \<Rightarrow> result" where
  "walk_loop source_dir target_dir i [] fs = Inr fs"
| "walk_loop source_dir target_dir i ((root, dirs, files) # rest) fs =
     (let rel_path = relpath root source_dir;
          dest_path = target_dir @ rel_path
      in case makedirs fs dest_path of
           Inl e \<Rightarrow> Inl (e, fs)
         | Inr fs1 \<Rightarrow>
             (case copy_files root dest_path i files fs1 of
                Inl err \<Rightarrow> Inl err
              | Inr fs2 \<Rightarrow> walk_loop source_dir target_dir i rest fs2))"

text \<open>The outer loop, \<^verbatim>\<open>for i in range(COPIES)\<close>.\<close>

fun copies_loop :: "path \<Rightarrow> path \<Rightarrow> nat list \<Rightarrow> fs \<Rightarrow> result" where
  "copies_loop source_dir target_dir [] fs = Inr fs"
| "copies_loop source_dir target_dir (i # is) fs =
     (case walk_loop source_dir target_dir i (os_walk fs source_dir) fs of
        Inl err \<Rightarrow> Inl err
      | Inr fs' \<Rightarrow> copies_loop source_dir target_dir is fs')"

text \<open>
  Lines 8 to 25 of the script, with its three constants as parameters: the creation of the
  target root and the passes.  This is the part of the script that touches the file
  system.
\<close>

definition run :: "path \<Rightarrow> path \<Rightarrow> nat \<Rightarrow> fs \<Rightarrow> result" where
  "run source_dir target_dir copies fs =
     (case makedirs fs target_dir of
        Inl e \<Rightarrow> Inl (e, fs)
      | Inr fs0 \<Rightarrow> copies_loop source_dir target_dir [0..<copies] fs0)"

definition SOURCE_DIR :: path where
  "SOURCE_DIR = [''C:'', ''Users'', ''PZWind-AkashM'', ''Desktop'', ''BigData'', ''DATA'']"

definition TARGET_DIR :: path where
  "TARGET_DIR = [''C:'', ''Users'', ''PZWind-AkashM'', ''Desktop'', ''BigData'', ''DATA_100GB'']"

definition COPIES :: nat where
  "COPIES = 20"

text \<open>
  The last line of the script prints its completion message, which starts with the code
  point \<open>U+2705\<close>.  \<^verbatim>\<open>print\<close> encodes the text and the newline after it for standard
  output and raises \<^verbatim>\<open>UnicodeEncodeError\<close> when the encoding of standard output lacks
  one of the code points.  Standard output is given by the code points it can encode.
\<close>

definition message :: "int list" where
  "message = 0x2705 # map of_char '' 100GB dataset created with unique filenames.''"

definition py_print :: "(int \<Rightarrow> bool) \<Rightarrow> int list \<Rightarrow> error option" where
  "py_print stdout msg =
     (if list_all stdout (msg @ [10]) then None else Some UnicodeEncodeError)"

definition stdout_utf8 :: "int \<Rightarrow> bool" where
  "stdout_utf8 c = (0 \<le> c \<and> c < 0x110000 \<and> \<not> (0xD800 \<le> c \<and> c < 0xE000))"

definition stdout_ascii :: "int \<Rightarrow> bool" where
  "stdout_ascii c = (0 \<le> c \<and> c < 128)"

text \<open>
  The whole script: lines 8 to 25, then the message.  An error of the first part ends the
  script before the message; an error of \<^verbatim>\<open>print\<close> ends it with the file system that
  the first part left.
\<close>

definition script :: "(int \<Rightarrow> bool) \<Rightarrow> path \<Rightarrow> path \<Rightarrow> nat \<Rightarrow> fs \<Rightarrow> result" where
  "script stdout source_dir target_dir copies fs =
     (case run source_dir target_dir copies fs of
        Inl err \<Rightarrow> Inl err
      | Inr fs' \<Rightarrow>
          (case py_print stdout message of
             None \<Rightarrow> Inr fs'
           | Some e \<Rightarrow> Inl (e, fs')))"

definition main :: "(int \<Rightarrow> bool) \<Rightarrow> fs \<Rightarrow> result" where
  "main stdout fs = script stdout SOURCE_DIR TARGET_DIR COPIES fs"

text \<open>The file system that a run leaves, whether it ends in an error or not.\<close>

definition final_fs :: "result \<Rightarrow> fs" where
  "final_fs r = (case r of Inl (e, fs) \<Rightarrow> fs | Inr fs \<Rightarrow> fs)"

text \<open>Two roots are separate when neither lies at or below the other.\<close>

definition separate :: "path \<Rightarrow> path \<Rightarrow> bool" where
  "separate source_dir target_dir =
     (\<not> prefix source_dir target_dir \<and> \<not> prefix target_dir source_dir)"

subsection \<open>The script as a sequence of primitive operations\<close>

text \<open>
  The script issues two kinds of calls that touch the file system.  Flattening the nested
  iteration of a pass into the list of those calls gives a second reading of it, used to say
  which call of a run fails and what ran before it.
\<close>

datatype op = Makedirs path | Copy path path

fun prim :: "fs \<Rightarrow> op \<Rightarrow> error + fs" where
  "prim fs (Makedirs name) = makedirs fs name"
| "prim fs (Copy src dst) = shutil_copy fs src dst"

fun exec :: "op list \<Rightarrow> fs \<Rightarrow> result" where
  "exec [] fs = Inr fs"
| "exec (x # xs) fs =
     (case prim fs x of Inl e \<Rightarrow> Inl (e, fs) | Inr fs' \<Rightarrow> exec xs fs')"

fun entry_ops :: "path \<Rightarrow> path \<Rightarrow> nat \<Rightarrow> path \<times> string list \<times> string list \<Rightarrow> op list" where
  "entry_ops source_dir target_dir i (root, dirs, files) =
     Makedirs (target_dir @ relpath root source_dir)
       # map (\<lambda>file. Copy (root @ [file])
                          ((target_dir @ relpath root source_dir) @ [new_filename file i])) files"

definition pass_ops :: "path \<Rightarrow> path \<Rightarrow> nat \<Rightarrow> fs \<Rightarrow> op list" where
  "pass_ops source_dir target_dir i fs =
     concat (map (entry_ops source_dir target_dir i) (os_walk fs source_dir))"

text \<open>A call targets a root when the path it is asked to create or write lies at or below it.\<close>

fun targets :: "path \<Rightarrow> op \<Rightarrow> bool" where
  "targets target_dir (Makedirs name) = prefix target_dir name"
| "targets target_dir (Copy src dst) = prefix target_dir dst"

subsection \<open>Observations of a tree\<close>

text \<open>The regular files below a root, and the relative paths of the directories below it.\<close>

definition regular_files :: "fs \<Rightarrow> path \<Rightarrow> path list" where
  "regular_files fs root =
     filter (\<lambda>q. strict_prefix root q \<and> isfile fs q) (remdups (map fst fs))"

definition rel_dirs :: "fs \<Rightarrow> path \<Rightarrow> path set" where
  "rel_dirs fs root = {rel. rel \<noteq> [] \<and> isdir fs (root @ rel)}"

subsection \<open>Enumeration order\<close>

text \<open>
  Two entry lists describe the same tree when they give every path the same node; they
  may list the entries, and so enumerate every directory, in different orders.
\<close>

definition same_tree :: "fs \<Rightarrow> fs \<Rightarrow> bool" where
  "same_tree a b =
     (list_all (\<lambda>(p, n). lookup b p = lookup a p) a \<and>
      list_all (\<lambda>(p, n). lookup a p = lookup b p) b)"

text \<open>
  The directory a call works in: the directory it creates, or the directory it writes
  into.  A list of directories is top-down when no directory comes after one of its own
  descendants.
\<close>

fun home :: "op \<Rightarrow> path" where
  "home (Makedirs name) = name"
| "home (Copy src dst) = butlast dst"

fun topdown :: "path list \<Rightarrow> bool" where
  "topdown [] = True"
| "topdown (h # hs) = ((\<forall>y \<in> set hs. \<not> strict_prefix y h) \<and> topdown hs)"

text \<open>
  The state of a pass, told from the file system \<open>m\<close> at its start and the set \<open>X\<close> of
  the calls done so far, without their order.  A copy whose destination is no directory of
  \<open>m\<close> writes its destination; a copy whose destination is a directory of \<open>m\<close> is
  redirected into it; a path that no copy writes is a directory if it was created, and is
  as in \<open>m\<close> otherwise.  Where a plain and a redirected copy meet, the plain one is the
  later one and its bytes stay.
\<close>

definition plain_write :: "(path \<Rightarrow> node option) \<Rightarrow> op set \<Rightarrow> path \<Rightarrow> bytes \<Rightarrow> bool" where
  "plain_write m X p c = (\<exists>src. Copy src p \<in> X \<and> m p \<noteq> Some Dir \<and> m src = Some (File c))"

definition redir_write :: "(path \<Rightarrow> node option) \<Rightarrow> op set \<Rightarrow> path \<Rightarrow> bytes \<Rightarrow> bool" where
  "redir_write m X p c =
     (\<exists>src dst. Copy src dst \<in> X \<and> m dst = Some Dir \<and> p = dst @ basename src
                \<and> m src = Some (File c))"

definition made_dir :: "op set \<Rightarrow> path \<Rightarrow> bool" where
  "made_dir X p = (\<exists>name. Makedirs name \<in> X \<and> prefix p name)"

definition cell ::
  "(path \<Rightarrow> node option) \<Rightarrow> op set \<Rightarrow> node option \<Rightarrow> path \<Rightarrow> bool" where
  "cell m X v p =
     ((\<forall>c. plain_write m X p c \<longrightarrow> v = Some (File c)) \<and>
      ((\<nexists>c. plain_write m X p c) \<longrightarrow> (\<forall>c. redir_write m X p c \<longrightarrow> v = Some (File c))) \<and>
      ((\<nexists>c. plain_write m X p c) \<and> (\<nexists>c. redir_write m X p c) \<longrightarrow>
         v = (if made_dir X p \<and> m p = None then Some Dir else m p)) \<and>
      (\<forall>c. redir_write m X p c \<longrightarrow> m p \<noteq> Some Dir))"

definition pass_state ::
  "(path \<Rightarrow> node option) \<Rightarrow> op set \<Rightarrow> (path \<Rightarrow> node option) \<Rightarrow> bool" where
  "pass_state m X s = (\<forall>p. cell m X (s p) p)"

text \<open>
  The calls of a pass create directories at or below the target root and copy files of the
  source tree to destinations below it, and a destination tells which file is copied to it.
\<close>

definition shaped :: "path \<Rightarrow> path \<Rightarrow> op set \<Rightarrow> bool" where
  "shaped source_dir target_dir X =
     ((\<forall>name. Makedirs name \<in> X \<longrightarrow> prefix target_dir name) \<and>
      (\<forall>src dst. Copy src dst \<in> X \<longrightarrow>
          prefix source_dir src \<and> src \<noteq> [] \<and> prefix target_dir dst \<and> dst \<noteq> [] \<and>
          (\<forall>src'. Copy src' dst \<in> X \<longrightarrow> src' = src)))"

subsection \<open>Example file systems\<close>

text \<open>
  Source trees under \<open>S\<close> and target trees under \<open>T\<close>:
  a file \<open>a\<close> beside a directory named \<open>a_copy1\<close>;
  a file \<open>x_copy0\<close> beside a directory \<open>x_copy0_copy1\<close> that holds a file \<open>x\<close>;
  a target that already holds a directory \<open>a_copy0\<close> with a file \<open>a\<close> in it;
  a file \<open>a\<close> beside a directory named \<open>a_copy0\<close>;
  a target root that is a regular file;
  a file system with neither a source nor a target root;
  a source tree that holds the one file \<open>README\<close>;
  a target that already holds a directory \<open>old\<close>.
\<close>

definition fs_redirect :: fs where
  "fs_redirect = [([], Dir), ([''S''], Dir), ([''S'', ''a''], File ''A''),
                  ([''S'', ''a_copy1''], Dir)]"

definition fs_collide :: fs where
  "fs_collide = [([], Dir), ([''S''], Dir), ([''S'', ''x_copy0''], File ''A''),
                 ([''S'', ''x_copy0_copy1''], Dir),
                 ([''S'', ''x_copy0_copy1'', ''x''], File ''B'')]"

definition fs_overwrite :: fs where
  "fs_overwrite = [([], Dir), ([''S''], Dir), ([''S'', ''a''], File ''A''),
                   ([''T''], Dir), ([''T'', ''a_copy0''], Dir),
                   ([''T'', ''a_copy0'', ''a''], File ''B'')]"

definition fs_blocked :: fs where
  "fs_blocked = [([], Dir), ([''S''], Dir), ([''S'', ''a''], File ''A''),
                 ([''S'', ''a_copy0''], Dir)]"

definition fs_target_is_file :: fs where
  "fs_target_is_file = [([], Dir), ([''T''], File [])]"

definition fs_bare :: fs where
  "fs_bare = [([], Dir), ([''other''], Dir), ([''other'', ''kept''], File ''K'')]"

definition fs_readme :: fs where
  "fs_readme = [([], Dir), ([''S''], Dir), ([''S'', ''README''], File ''R'')]"

definition fs_old_dir :: fs where
  "fs_old_dir = [([], Dir), ([''S''], Dir), ([''T''], Dir), ([''T'', ''old''], Dir)]"

text \<open>The scenario of the specification: \<open>a.txt\<close> and \<open>sub/b.txt\<close>, before and after two passes.\<close>

definition fs_tree :: fs where
  "fs_tree = [([], Dir), ([''S''], Dir), ([''S'', ''a.txt''], File ''A''),
              ([''S'', ''sub''], Dir), ([''S'', ''sub'', ''b.txt''], File ''B'')]"

definition fs_tree_copied :: fs where
  "fs_tree_copied = fs_tree @
     [([''T''], Dir), ([''T'', ''a_copy0.txt''], File ''A''), ([''T'', ''sub''], Dir),
      ([''T'', ''sub'', ''b_copy0.txt''], File ''B''), ([''T'', ''a_copy1.txt''], File ''A''),
      ([''T'', ''sub'', ''b_copy1.txt''], File ''B'')]"

text \<open>
  One source tree in two enumeration orders, before and after two passes, and a source tree
  with two directories in both orders beside a target in which a regular file blocks the
  second directory.
\<close>

definition fs_walk_a :: fs where
  "fs_walk_a = [([], Dir), ([''S''], Dir), ([''S'', ''b.txt''], File ''B''),
                ([''S'', ''a''], File ''A''), ([''S'', ''a_copy1''], Dir),
                ([''S'', ''sub''], Dir), ([''S'', ''a_copy1'', ''z''], File ''Z''),
                ([''S'', ''sub'', ''c''], File ''C'')]"

definition fs_walk_b :: fs where
  "fs_walk_b = [([], Dir), ([''S''], Dir), ([''S'', ''sub''], Dir),
                ([''S'', ''sub'', ''c''], File ''C''), ([''S'', ''a_copy1''], Dir),
                ([''S'', ''a_copy1'', ''z''], File ''Z''), ([''S'', ''a''], File ''A''),
                ([''S'', ''b.txt''], File ''B'')]"

definition fs_stop_a :: fs where
  "fs_stop_a = [([], Dir), ([''S''], Dir), ([''S'', ''d1''], Dir), ([''S'', ''d2''], Dir),
                ([''T''], Dir), ([''T'', ''d2''], File [])]"

definition fs_stop_b :: fs where
  "fs_stop_b = [([], Dir), ([''S''], Dir), ([''S'', ''d2''], Dir), ([''S'', ''d1''], Dir),
                ([''T''], Dir), ([''T'', ''d2''], File [])]"

definition fs_walk_a_copied :: fs where
  "fs_walk_a_copied = fs_walk_a @
     [([''T''], Dir), ([''T'', ''b_copy0.txt''], File ''B''), ([''T'', ''a_copy0''], File ''A''),
      ([''T'', ''a_copy1''], Dir), ([''T'', ''a_copy1'', ''z_copy0''], File ''Z''),
      ([''T'', ''sub''], Dir), ([''T'', ''sub'', ''c_copy0''], File ''C''),
      ([''T'', ''b_copy1.txt''], File ''B''), ([''T'', ''a_copy1'', ''a''], File ''A''),
      ([''T'', ''a_copy1'', ''z_copy1''], File ''Z''), ([''T'', ''sub'', ''c_copy1''], File ''C'')]"

definition fs_walk_b_copied :: fs where
  "fs_walk_b_copied = fs_walk_b @
     [([''T''], Dir), ([''T'', ''a_copy0''], File ''A''), ([''T'', ''b_copy0.txt''], File ''B''),
      ([''T'', ''sub''], Dir), ([''T'', ''sub'', ''c_copy0''], File ''C''),
      ([''T'', ''a_copy1''], Dir), ([''T'', ''a_copy1'', ''z_copy0''], File ''Z''),
      ([''T'', ''a_copy1'', ''a''], File ''A''), ([''T'', ''b_copy1.txt''], File ''B''),
      ([''T'', ''sub'', ''c_copy1''], File ''C''), ([''T'', ''a_copy1'', ''z_copy1''], File ''Z'')]"

section \<open>File names: extension, index and distinctness\<close>

lemma digit_in: "d < 10 \<Longrightarrow> is_digit (digit d)"
  unfolding digit_def is_digit_def by (rule nth_mem) simp

lemma digit_inj: "d < 10 \<Longrightarrow> d' < 10 \<Longrightarrow> digit d = digit d' \<Longrightarrow> d = d'"
  unfolding digit_def by (subst (asm) nth_eq_iff_index_eq) simp_all

lemma py_str_nonempty: "py_str n \<noteq> []"
  by (subst py_str.simps) simp

lemma py_str_digits: "\<forall>c \<in> set (py_str n). is_digit c"
proof (induction n rule: py_str.induct)
  case (1 n)
  show ?case
  proof (cases "n < 10")
    case True
    then show ?thesis using digit_in[of n] by (subst py_str.simps) simp
  next
    case False
    then show ?thesis using 1 digit_in[of "n mod 10"] by (subst py_str.simps) simp
  qed
qed

lemma py_str_inj: "py_str n = py_str m \<Longrightarrow> n = m"
proof (induction n arbitrary: m rule: py_str.induct)
  case (1 n)
  show ?case
  proof (cases "n < 10")
    case n: True
    show ?thesis
    proof (cases "m < 10")
      case True
      then show ?thesis using n "1.prems" digit_inj[of n m]
        by (simp add: py_str.simps[of n] py_str.simps[of m])
    next
      case False
      then show ?thesis using n "1.prems" py_str_nonempty[of "m div 10"]
        by (simp add: py_str.simps[of n] py_str.simps[of m] Cons_eq_append_conv)
    qed
  next
    case n: False
    show ?thesis
    proof (cases "m < 10")
      case True
      then show ?thesis using n "1.prems" py_str_nonempty[of "n div 10"]
        by (simp add: py_str.simps[of n] py_str.simps[of m] append_eq_Cons_conv)
    next
      case False
      then have "py_str (n div 10) = py_str (m div 10)"
        and d: "digit (n mod 10) = digit (m mod 10)"
        using n "1.prems" by (simp_all add: py_str.simps[of n] py_str.simps[of m])
      then have "n div 10 = m div 10" using "1.IH" n by simp
      moreover have "n mod 10 = m mod 10"
        using d digit_inj[of "n mod 10" "m mod 10"] by simp
      ultimately show ?thesis by (metis div_mult_mod_eq)
    qed
  qed
qed

text \<open>
  A string that ends in a separator character followed by characters of another kind
  determines both parts: the last run of such characters is the suffix.
\<close>

lemma suffix_cancel:
  assumes "a @ sep # s = a' @ sep # s'"
    and "\<forall>c \<in> set s. P c" and "\<forall>c \<in> set s'. P c" and "\<not> P sep"
  shows "a = a' \<and> s = s'"
proof -
  have "rev (a @ sep # s) = rev (a' @ sep # s')"
    using assms(1) by (rule arg_cong)
  then have r: "rev s @ sep # rev a = rev s' @ sep # rev a'"
    by (simp only: rev_append rev.simps append.simps append_assoc)
  have "takeWhile P (rev s @ sep # rev a) = rev s"
    using assms(2,4) by (subst takeWhile_append2) simp_all
  moreover have "takeWhile P (rev s' @ sep # rev a') = rev s'"
    using assms(3,4) by (subst takeWhile_append2) simp_all
  ultimately have "rev s = rev s'" using r by simp
  then have "s = s'" by simp
  with assms(1) show ?thesis by simp
qed

lemma copy_suffix_cancel:
  assumes "name @ ''_copy'' @ py_str i = name' @ ''_copy'' @ py_str i'"
  shows "name = name' \<and> i = i'"
proof -
  have e: "(name @ ''_cop'') @ CHR ''y'' # py_str i = (name' @ ''_cop'') @ CHR ''y'' # py_str i'"
    using assms by simp
  have y: "\<not> is_digit (CHR ''y'')" by (simp add: is_digit_def)
  have "name @ ''_cop'' = name' @ ''_cop'' \<and> py_str i = py_str i'"
    using e py_str_digits py_str_digits y by (rule suffix_cancel)
  then show ?thesis using py_str_inj by simp
qed

lemma splitext_nodot: "CHR ''.'' \<notin> set p \<Longrightarrow> splitext p = (p, [])"
  by (simp add: splitext_def)

lemma splitext_dot:
  assumes "CHR ''.'' \<notin> set b"
  shows "splitext (a @ CHR ''.'' # b) =
           (if \<exists>c \<in> set a. c \<noteq> CHR ''.'' then (a, CHR ''.'' # b) else (a @ CHR ''.'' # b, []))"
proof -
  have "takeWhile (\<lambda>c. c \<noteq> CHR ''.'') (rev (a @ CHR ''.'' # b)) = rev b"
    using assms by (simp, subst takeWhile_append2) auto
  then have "length (a @ CHR ''.'' # b) - 1
               - length (takeWhile (\<lambda>c. c \<noteq> CHR ''.'') (rev (a @ CHR ''.'' # b))) = length a"
    by simp
  then show ?thesis
    unfolding splitext_def Let_def by simp
qed

lemma splitext_cases:
  obtains (nodot) "CHR ''.'' \<notin> set p" "splitext p = (p, [])"
  | (ext) a b where "p = a @ CHR ''.'' # b" "CHR ''.'' \<notin> set b" "\<exists>c \<in> set a. c \<noteq> CHR ''.''"
      "splitext p = (a, CHR ''.'' # b)"
  | (dots) a b where "p = a @ CHR ''.'' # b" "CHR ''.'' \<notin> set b" "\<forall>c \<in> set a. c = CHR ''.''"
      "splitext p = (p, [])"
proof (cases "CHR ''.'' \<in> set p")
  case False
  then show ?thesis using nodot splitext_nodot by simp
next
  case True
  then obtain a b where p: "p = a @ CHR ''.'' # b" "CHR ''.'' \<notin> set b"
    using split_list_last by fastforce
  show ?thesis
  proof (cases "\<exists>c \<in> set a. c \<noteq> CHR ''.''")
    case True
    then show ?thesis using ext[of a b] p splitext_dot[of b a] by simp
  next
    case False
    then show ?thesis using dots[of a b] p splitext_dot[of b a] by simp
  qed
qed

lemma splitext_append: "splitext p = (name, ext) \<Longrightarrow> name @ ext = p"
  by (cases p rule: splitext_cases) auto

lemma nodot_digits: "CHR ''.'' \<notin> set (py_str i)"
proof
  assume "CHR ''.'' \<in> set (py_str i)"
  then have "is_digit (CHR ''.'')" using py_str_digits[of i] by blast
  then show False by (simp add: is_digit_def)
qed

text \<open>
  Splitting a generated name gives back the stem with its index suffix and the extension
  of the source name: the renaming never moves the extension.
\<close>

lemma splitext_new_filename:
  "splitext (new_filename file i) =
     (fst (splitext file) @ ''_copy'' @ py_str i, snd (splitext file))"
proof (cases "file" rule: splitext_cases)
  case nodot
  then show ?thesis using nodot_digits[of i]
    by (simp add: new_filename_def splitext_nodot)
next
  case (ext a b)
  have "splitext ((a @ ''_copy'' @ py_str i) @ CHR ''.'' # b)
          = (a @ ''_copy'' @ py_str i, CHR ''.'' # b)"
    using ext(2) by (subst splitext_dot) auto
  then show ?thesis using ext by (simp add: new_filename_def)
next
  case (dots a b)
  have "splitext (a @ CHR ''.'' # (b @ ''_copy'' @ py_str i))
          = (a @ CHR ''.'' # (b @ ''_copy'' @ py_str i), [])"
    using dots(2,3) nodot_digits[of i] by (subst splitext_dot) auto
  then show ?thesis using dots by (simp add: new_filename_def)
qed

lemma new_filename_inj:
  assumes "new_filename file i = new_filename file' i'"
  shows "file = file' \<and> i = i'"
proof -
  obtain name ext where s: "splitext file = (name, ext)" by (cases "splitext file")
  obtain name' ext' where s': "splitext file' = (name', ext')" by (cases "splitext file'")
  have "splitext (new_filename file i) = splitext (new_filename file' i')"
    using assms by simp
  then have e: "name @ ''_copy'' @ py_str i = name' @ ''_copy'' @ py_str i'" and x: "ext = ext'"
    using s s' by (simp_all add: splitext_new_filename)
  have "name = name'" "i = i'"
    using copy_suffix_cancel[OF e] by auto
  moreover have "file = name @ ext" "file' = name' @ ext'"
    using s s' splitext_append by auto
  ultimately show ?thesis using x by simp
qed

text \<open>
  A name without a dot has no extension, and so has a name whose only dots lead it.  For a
  name without extension the generated name is the bare name followed by \<open>_copy\<close> and
  the index: no extension is added, and it ends in the digits of the index, not in a dot.
\<close>

lemma new_filename_no_extension:
  "(CHR ''.'' \<notin> set file \<longrightarrow> splitext file = (file, [])) \<and>
   (snd (splitext file) = [] \<longrightarrow>
      new_filename file i = file @ ''_copy'' @ py_str i \<and>
      last (new_filename file i) \<noteq> CHR ''.'')"
proof (intro conjI impI)
  assume "CHR ''.'' \<notin> set file"
  then show "splitext file = (file, [])" by (rule splitext_nodot)
next
  assume a: "snd (splitext file) = []"
  then have s: "splitext file = (file, [])"
    using splitext_append[of "file" "fst (splitext file)" "snd (splitext file)"] by (cases "splitext file") simp
  then show n: "new_filename file i = file @ ''_copy'' @ py_str i"
    by (simp add: new_filename_def)
  have "last (py_str i) \<in> set (py_str i)" using py_str_nonempty by simp
  then have "last (py_str i) \<noteq> CHR ''.''" using nodot_digits[of i] by metis
  then show "last (new_filename file i) \<noteq> CHR ''.''"
    using py_str_nonempty[of i] by (simp add: n)
qed

text \<open>
  The generated target path is a function of the source directory (through its path
  relative to the source root), the file name and the copy index, and it determines all
  three: two different pairs of a source file and a copy index never get the same
  generated path.  Whether the copy is written to its generated path is another matter,
  settled below on runs of the script.
\<close>

lemma generated_paths_distinct:
  "((target_dir @ rel_path) @ [new_filename file i]
      = (target_dir @ rel_path') @ [new_filename file' i'])
   = (rel_path = rel_path' \<and> file = file' \<and> i = i')"
  using new_filename_inj by auto


section \<open>Well-formed file systems and directory creation\<close>

lemma lookup_update: "lookup (AList.update k v fs) = (lookup fs)(k \<mapsto> v)"
  by (rule ext) (simp add: lookup_def update_conv')

lemma exists_iff_key: "exists fs p \<longleftrightarrow> p \<in> fst ` set fs"
  by (simp add: exists_def lookup_def map_of_eq_None_iff)

lemma wf_fs_iff:
  "wf_fs fs \<longleftrightarrow> isdir fs [] \<and> (\<forall>p. exists fs p \<longrightarrow> p = [] \<or> isdir fs (butlast p))"
  unfolding wf_fs_def list_all_iff exists_iff_key by force

lemma wf_root: "wf_fs fs \<Longrightarrow> isdir fs []"
  by (simp add: wf_fs_iff)

lemma wf_parent: "wf_fs fs \<Longrightarrow> exists fs p \<Longrightarrow> p \<noteq> [] \<Longrightarrow> isdir fs (butlast p)"
  by (auto simp: wf_fs_iff)

lemma isdir_exists: "isdir fs p \<Longrightarrow> exists fs p"
  by (simp add: isdir_def exists_def)

lemma prefix_butlast:
  "name \<noteq> [] \<Longrightarrow> prefix q name \<longleftrightarrow> q = name \<or> prefix q (butlast name)"
  by (metis append_butlast_last_id prefix_snoc)

lemma wf_prefix:
  "wf_fs fs \<Longrightarrow> exists fs p \<Longrightarrow> prefix q p \<Longrightarrow> q \<noteq> p \<Longrightarrow> isdir fs q"
proof (induction p rule: rev_induct)
  case Nil
  then show ?case by simp
next
  case (snoc x ps)
  have d: "isdir fs ps" using wf_parent[OF snoc.prems(1,2)] by simp
  from snoc.prems(3,4) have "prefix q ps" by (simp add: prefix_snoc)
  then show ?case using d snoc.IH[OF snoc.prems(1) isdir_exists[OF d]] by blast
qed

lemma wf_prefix_dir: "wf_fs fs \<Longrightarrow> isdir fs p \<Longrightarrow> prefix q p \<Longrightarrow> isdir fs q"
  using wf_prefix[of fs p q] isdir_exists by blast

lemma wf_update:
  assumes "wf_fs fs" "p \<noteq> []" "isdir fs (butlast p)" "\<not> isdir fs p"
  shows "wf_fs (AList.update p n fs)"
  unfolding wf_fs_iff
proof (intro conjI allI impI)
  show "isdir (AList.update p n fs) []"
    using assms(1,2) by (simp add: isdir_def lookup_update wf_fs_iff)
next
  fix q assume q: "exists (AList.update p n fs) q"
  show "q = [] \<or> isdir (AList.update p n fs) (butlast q)"
  proof (cases "q = p")
    case True
    moreover have "butlast p \<noteq> p" using assms(2) by (metis append_butlast_last_id append_self_conv not_Cons_self2)
    ultimately show ?thesis using assms(3) by (simp add: isdir_def lookup_update)
  next
    case False
    then have e: "exists fs q" using q by (simp add: exists_def lookup_update)
    show ?thesis
    proof (cases "q = []")
      case True
      then show ?thesis by simp
    next
      case False
      then have d: "isdir fs (butlast q)" using wf_parent[OF assms(1) e] by simp
      then have "butlast q \<noteq> p" using assms(4) by auto
      then show ?thesis using d by (simp add: isdir_def lookup_update)
    qed
  qed
qed

lemma mkdir_effect:
  "mkdir fs p = Inr fs' \<Longrightarrow>
     fs' = AList.update p Dir fs \<and> lookup fs p = None \<and> isdir fs (butlast p)"
  by (auto simp: mkdir_def exists_def isdir_def split: if_splits option.splits node.splits)

lemma makedirs_effect:
  assumes "wf_fs fs" "makedirs fs name = Inr fs'"
  shows "wf_fs fs' \<and>
         (\<forall>q. lookup fs' q = (if prefix q name \<and> lookup fs q = None then Some Dir else lookup fs q))"
  using assms
proof (induction fs name arbitrary: fs' rule: makedirs.induct)
  case (1 fs name)
  note wf = "1.prems"(1)
  show ?case
  proof (cases "name \<noteq> [] \<and> \<not> exists fs (butlast name)")
    case True
    then have nex: "lookup fs name = None"
      using wf_parent[OF wf, of name] by (cases "lookup fs name") (auto simp: exists_def isdir_def)
    have npar: "lookup fs (butlast name) = None" using True by (simp add: exists_def)
    show ?thesis
    proof (cases "makedirs fs (butlast name)")
      case (Inl e)
      have "mkdir fs name = Inl FileNotFoundError"
        using nex npar by (simp add: mkdir_def exists_def)
      then have False
        using "1.prems"(2) True Inl nex
        by (subst (asm) makedirs.simps) (auto simp: isdir_def split: error.splits)
      then show ?thesis ..
    next
      case (Inr fs0)
      from "1.IH"[OF True wf Inr]
      have wf0: "wf_fs fs0"
        and l0: "\<And>q. lookup fs0 q =
           (if prefix q (butlast name) \<and> lookup fs q = None then Some Dir else lookup fs q)"
        by auto
      have np: "\<not> prefix name (butlast name)"
        using True by (metis append_butlast_last_id prefix_order.eq_iff prefix_snoc not_Cons_self2 append_self_conv prefix_butlast)
      have nex0: "lookup fs0 name = None" using l0[of name] np nex by simp
      have par0: "isdir fs0 (butlast name)" using l0[of "butlast name"] npar by (simp add: isdir_def)
      have "mkdir fs0 name = Inr (AList.update name Dir fs0)"
        using nex0 par0 by (simp add: mkdir_def exists_def isdir_def)
      then have fs': "fs' = AList.update name Dir fs0"
        using "1.prems"(2) True Inr by (subst (asm) makedirs.simps) simp
      have "wf_fs fs'" unfolding fs'
        using wf0 par0 nex0 True by (intro wf_update) (auto simp: isdir_def)
      moreover have "lookup fs' q =
          (if prefix q name \<and> lookup fs q = None then Some Dir else lookup fs q)" for q
        unfolding fs' lookup_update using l0[of q] nex prefix_butlast[of name q] True
        by auto
      ultimately show ?thesis by blast
    qed
  next
    case False
    then have step: "(case mkdir fs name of
             Inl e \<Rightarrow> if isdir fs name then Inr fs else Inl e
           | Inr fs2 \<Rightarrow> Inr fs2) = Inr fs'"
      using "1.prems"(2) by (subst (asm) makedirs.simps) (simp only: if_False sum.case)
    show ?thesis
    proof (cases "mkdir fs name")
      case (Inl e)
      then have d: "isdir fs name" and eq: "fs' = fs" using step by (auto split: if_splits)
      have "lookup fs q \<noteq> None" if "prefix q name" for q
        using wf_prefix_dir[OF wf d that] by (simp add: isdir_def)
      then show ?thesis using eq wf by auto
    next
      case (Inr fs2)
      then have fs': "fs' = AList.update name Dir fs" and nex: "lookup fs name = None"
        and par: "isdir fs (butlast name)"
        using step mkdir_effect[OF Inr] by auto
      have ne: "name \<noteq> []" using nex par by (auto simp: isdir_def)
      have "wf_fs fs'" unfolding fs'
        using wf par nex ne by (intro wf_update) (auto simp: isdir_def)
      moreover have "lookup fs' q =
          (if prefix q name \<and> lookup fs q = None then Some Dir else lookup fs q)" for q
      proof (cases "q = name")
        case True
        then show ?thesis using nex by (simp add: fs' lookup_update)
      next
        case False
        have "lookup fs q \<noteq> None" if "prefix q name"
          using that False prefix_butlast[OF ne, of q] wf_prefix_dir[OF wf par, of q]
          by (auto simp: isdir_def)
        then show ?thesis using False by (auto simp: fs' lookup_update)
      qed
      ultimately show ?thesis by blast
    qed
  qed
qed

lemma makedirs_existing:
  assumes "wf_fs fs" "isdir fs name"
  shows "makedirs fs name = Inr fs"
proof -
  have "name = [] \<or> exists fs (butlast name)"
    using wf_parent[OF assms(1) isdir_exists[OF assms(2)]] isdir_exists by blast
  moreover have "mkdir fs name = Inl FileExistsError"
    using assms(2) by (simp add: mkdir_def exists_def isdir_def)
  ultimately show ?thesis using assms(2)
    by (subst makedirs.simps) auto
qed

section \<open>Failure of a run\<close>

lemma exec_append:
  "exec (xs @ ys) fs = (case exec xs fs of Inl err \<Rightarrow> Inl err | Inr fs' \<Rightarrow> exec ys fs')"
  by (induction xs arbitrary: fs) (auto split: sum.splits)

lemma copy_files_exec:
  "copy_files root dest_path i files fs =
     exec (map (\<lambda>file. Copy (root @ [file]) (dest_path @ [new_filename file i])) files) fs"
  by (induction files arbitrary: fs) (auto split: sum.splits)

lemma walk_loop_exec:
  "walk_loop source_dir target_dir i w fs =
     exec (concat (map (entry_ops source_dir target_dir i) w)) fs"
proof (induction w arbitrary: fs)
  case Nil
  then show ?case by simp
next
  case (Cons e w)
  obtain root dirs files where e: "e = (root, dirs, files)" by (cases e)
  show ?case
    unfolding e using Cons.IH
    by (simp add: exec_append copy_files_exec Let_def split: sum.splits)
qed

lemma copies_loop_append:
  "copies_loop source_dir target_dir (xs @ ys) fs =
     (case copies_loop source_dir target_dir xs fs of
        Inl err \<Rightarrow> Inl err
      | Inr fs' \<Rightarrow> copies_loop source_dir target_dir ys fs')"
  by (induction xs arbitrary: fs) (auto split: sum.splits)

lemma exec_fails:
  "exec pre fs = Inr fs1 \<Longrightarrow> prim fs1 x = Inl e \<Longrightarrow> exec (pre @ x # post) fs = Inl (e, fs1)"
  by (simp add: exec_append)

text \<open>
  C7.  No call of the script is guarded.  When creating the target root fails, the run
  ends with that error and the file system untouched.  When passes \<open>0..<i\<close> have
  succeeded and, in pass \<open>i\<close>, the calls \<open>pre\<close> have succeeded and the next call \<open>x\<close>
  fails, the run ends with the error of \<open>x\<close> at once: the calls \<open>post\<close> and the later
  passes do not run, \<open>x\<close> is not tried again, and the file system is the one that the
  calls before \<open>x\<close> left, with every file they wrote.
\<close>

theorem C7_error_propagates:
  "(makedirs fs target_dir = Inl e \<longrightarrow> run source_dir target_dir n fs = Inl (e, fs)) \<and>
   (run source_dir target_dir i fs = Inr fs_i \<and> i < n \<and>
    pass_ops source_dir target_dir i fs_i = pre @ x # post \<and>
    exec pre fs_i = Inr fs1 \<and> prim fs1 x = Inl e
      \<longrightarrow> run source_dir target_dir n fs = Inl (e, fs1))"
proof (intro conjI impI)
  assume "makedirs fs target_dir = Inl e"
  then show "run source_dir target_dir n fs = Inl (e, fs)" by (simp add: run_def)
next
  assume a: "run source_dir target_dir i fs = Inr fs_i \<and> i < n \<and>
    pass_ops source_dir target_dir i fs_i = pre @ x # post \<and>
    exec pre fs_i = Inr fs1 \<and> prim fs1 x = Inl e"
  then obtain fs0 where m: "makedirs fs target_dir = Inr fs0"
    and l: "copies_loop source_dir target_dir [0..<i] fs0 = Inr fs_i"
    by (auto simp: run_def split: sum.splits)
  have "walk_loop source_dir target_dir i (os_walk fs_i source_dir) fs_i = Inl (e, fs1)"
    using a exec_fails[of pre fs_i fs1 x e post]
    by (simp add: walk_loop_exec pass_ops_def)
  then have "copies_loop source_dir target_dir (i # [Suc i..<n]) fs_i = Inl (e, fs1)"
    by simp
  moreover have "[0..<n] = [0..<i] @ i # [Suc i..<n]"
    using a by (metis le_add1 less_imp_add_positive upt_add_eq_append upt_conv_Cons add_0 less_eq_nat.simps(1) less_or_eq_imp_le upt_rec)
  ultimately show "run source_dir target_dir n fs = Inl (e, fs1)"
    using m l by (simp add: run_def copies_loop_append)
qed

theorem C7_error_propagates_witness:
  "run [''S''] [''T''] 0 fs_blocked = Inr (fs_blocked @ [([''T''], Dir)]) \<and> (0::nat) < 2 \<and>
   pass_ops [''S''] [''T''] 0 (fs_blocked @ [([''T''], Dir)])
     = [Makedirs [''T''], Copy [''S'', ''a''] [''T'', ''a_copy0'']]
         @ Makedirs [''T'', ''a_copy0''] # [] \<and>
   exec [Makedirs [''T''], Copy [''S'', ''a''] [''T'', ''a_copy0'']] (fs_blocked @ [([''T''], Dir)])
     = Inr (fs_blocked @ [([''T''], Dir), ([''T'', ''a_copy0''], File ''A'')]) \<and>
   prim (fs_blocked @ [([''T''], Dir), ([''T'', ''a_copy0''], File ''A'')])
        (Makedirs [''T'', ''a_copy0'']) = Inl FileExistsError \<and>
   run [''S''] [''T''] 2 fs_blocked
     = Inl (FileExistsError, fs_blocked @ [([''T''], Dir), ([''T'', ''a_copy0''], File ''A'')])"
proof -
  have h: "run [''S''] [''T''] 0 fs_blocked = Inr (fs_blocked @ [([''T''], Dir)]) \<and> (0::nat) < 2 \<and>
   pass_ops [''S''] [''T''] 0 (fs_blocked @ [([''T''], Dir)])
     = [Makedirs [''T''], Copy [''S'', ''a''] [''T'', ''a_copy0'']]
         @ Makedirs [''T'', ''a_copy0''] # [] \<and>
   exec [Makedirs [''T''], Copy [''S'', ''a''] [''T'', ''a_copy0'']] (fs_blocked @ [([''T''], Dir)])
     = Inr (fs_blocked @ [([''T''], Dir), ([''T'', ''a_copy0''], File ''A'')]) \<and>
   prim (fs_blocked @ [([''T''], Dir), ([''T'', ''a_copy0''], File ''A'')])
        (Makedirs [''T'', ''a_copy0'']) = Inl FileExistsError"
    by code_simp
  from C7_error_propagates[THEN conjunct2, rule_format, OF h] h show ?thesis by blast
qed

section \<open>Copies that do not land on their generated name\<close>

text \<open>
  \<^verbatim>\<open>shutil.copy\<close> writes into its destination when the destination is a directory.  A
  directory whose name is a generated name therefore redirects the copy.
\<close>

text \<open>
  C1.  The source tree holds the file \<open>a\<close> and the directory \<open>a_copy1\<close>; there is no
  target yet.  Two passes succeed.  Pass \<open>0\<close> mirrors the directory \<open>a_copy1\<close>; pass \<open>1\<close>
  then copies \<open>a\<close> to \<open>T/a_copy1\<close>, which is that directory, so the bytes land in
  \<open>T/a_copy1/a\<close>.  After the run there is no regular file at the generated path
  \<open>T/a_copy1\<close>.
\<close>

theorem C1_copy_lands_inside_directory:
  "wf_fs fs_redirect \<and> \<not> exists fs_redirect [''T''] \<and>
   lookup fs_redirect ([''S''] @ [''a'']) = Some (File ''A'') \<and>
   (case run [''S''] [''T''] 2 fs_redirect of
      Inl err \<Rightarrow> False
    | Inr fs' \<Rightarrow>
        lookup fs' (([''T''] @ []) @ [new_filename ''a'' 1]) = Some Dir \<and>
        lookup fs' [''T'', ''a_copy1'', ''a''] = Some (File ''A''))"
  by code_simp

text \<open>
  C2.  The source tree holds two regular files, \<open>x_copy0\<close> and \<open>x_copy0_copy1/x\<close>; there
  is no target yet.  Two passes succeed.  In pass \<open>1\<close> the copy of \<open>x_copy0\<close> is redirected
  into the directory \<open>T/x_copy0_copy1\<close> and overwrites the file \<open>x_copy0\<close> that pass \<open>0\<close>
  wrote there as the copy of \<open>x\<close>.  The target tree ends with three regular files, not
  four.
\<close>

theorem C2_fewer_files_than_copies:
  "wf_fs fs_collide \<and> \<not> exists fs_collide [''T''] \<and>
   length (regular_files fs_collide [''S'']) = 2 \<and>
   (case run [''S''] [''T''] 2 fs_collide of
      Inl err \<Rightarrow> False
    | Inr fs' \<Rightarrow> length (regular_files fs' [''T'']) = 3)"
  by code_simp

text \<open>
  C3.  The source tree holds the file \<open>x_copy0\<close> beside the directory \<open>x_copy0_copy1\<close>
  with the file \<open>x\<close> in it; there is no target yet.  The generated target paths of
  \<open>x_copy0\<close> at index \<open>1\<close> and of \<open>x_copy0_copy1/x\<close> at index \<open>0\<close> differ, and yet both
  copies are written to the one path \<open>T/x_copy0_copy1/x_copy0\<close>: one pass leaves the bytes
  of \<open>x\<close> there, the second pass replaces them with the bytes of \<open>x_copy0\<close>, whose own
  generated path \<open>T/x_copy0_copy1\<close> is a directory.  Four pairs of a source file and a
  copy index end with three target files: the copies collided, and nothing handled it.
\<close>

theorem C3_two_copies_one_file:
  "wf_fs fs_collide \<and> \<not> exists fs_collide [''T''] \<and>
   lookup fs_collide ([''S''] @ [''x_copy0'']) = Some (File ''A'') \<and>
   lookup fs_collide ([''S'', ''x_copy0_copy1''] @ [''x'']) = Some (File ''B'') \<and>
   ([''T''] @ []) @ [new_filename ''x_copy0'' 1] = [''T'', ''x_copy0_copy1''] \<and>
   ([''T''] @ [''x_copy0_copy1'']) @ [new_filename ''x'' 0]
     = [''T'', ''x_copy0_copy1'', ''x_copy0''] \<and>
   (case run [''S''] [''T''] 1 fs_collide of
      Inl err \<Rightarrow> False
    | Inr fs' \<Rightarrow> lookup fs' [''T'', ''x_copy0_copy1'', ''x_copy0''] = Some (File ''B'')) \<and>
   (case run [''S''] [''T''] 2 fs_collide of
      Inl err \<Rightarrow> False
    | Inr fs' \<Rightarrow>
        lookup fs' [''T'', ''x_copy0_copy1'', ''x_copy0''] = Some (File ''A'') \<and>
        lookup fs' [''T'', ''x_copy0_copy1''] = Some Dir \<and>
        regular_files fs' [''T'']
          = [[''T'', ''x_copy0_copy0''], [''T'', ''x_copy0_copy1'', ''x_copy0''],
             [''T'', ''x_copy0_copy1'', ''x_copy1'']])"
  by code_simp

text \<open>
  The scenario of the specification for a file without extension: one pass over a source
  tree that holds \<open>README\<close>, into a target that does not exist yet, writes \<open>README_copy0\<close>.
\<close>

lemma readme_scenario:
  "run [''S''] [''T''] 1 fs_readme
     = Inr (fs_readme @ [([''T''], Dir), ([''T'', ''README_copy0''], File ''R'')])"
  by code_simp

text \<open>
  C5.  The source tree holds the file \<open>a\<close> beside the directory \<open>a_copy1\<close>; there is no
  target yet.  The file \<open>a\<close> has no extension, and its generated name for index \<open>1\<close> is
  \<open>a_copy1\<close>.  After two passes, which succeed, no regular file has that name: the copy of index \<open>1\<close> is the file \<open>a\<close> inside the directory \<open>T/a_copy1\<close>, named
  without the suffix.
\<close>

theorem C5_copy_without_suffix:
  "wf_fs fs_redirect \<and> \<not> exists fs_redirect [''T''] \<and>
   isfile fs_redirect [''S'', ''a''] \<and> splitext ''a'' = (''a'', []) \<and>
   new_filename ''a'' 1 = ''a_copy1'' \<and>
   (case run [''S''] [''T''] 2 fs_redirect of
      Inl err \<Rightarrow> False
    | Inr fs' \<Rightarrow>
        \<not> isfile fs' [''T'', ''a_copy1''] \<and>
        regular_files fs' [''T''] = [[''T'', ''a_copy0''], [''T'', ''a_copy1'', ''a'']])"
  by code_simp

lemma new_filename_length: "6 \<le> length (new_filename file i)"
proof -
  obtain name ext where "splitext file = (name, ext)" by (cases "splitext file")
  then show ?thesis using py_str_nonempty[of i]
    by (cases "py_str i") (simp_all add: new_filename_def)
qed

text \<open>
  C9.  The target holds, before the run, the directory \<open>a_copy0\<close> with the file \<open>a\<close> in
  it.  No generated name is \<open>a\<close>.  The run succeeds, and the copy of the source file
  \<open>a\<close>, redirected into \<open>T/a_copy0\<close>, replaces the bytes of that file.
\<close>

theorem C9_existing_file_overwritten:
  "wf_fs fs_overwrite \<and>
   lookup fs_overwrite [''T'', ''a_copy0'', ''a''] = Some (File ''B'') \<and>
   (\<forall>file i. new_filename file i \<noteq> ''a'') \<and>
   (case run [''S''] [''T''] 1 fs_overwrite of
      Inl err \<Rightarrow> False
    | Inr fs' \<Rightarrow> lookup fs' [''T'', ''a_copy0'', ''a''] = Some (File ''A''))"
proof -
  have "new_filename f i \<noteq> ''a''" for f i
    using new_filename_length[of f i] by auto
  moreover have "wf_fs fs_overwrite \<and>
   lookup fs_overwrite [''T'', ''a_copy0'', ''a''] = Some (File ''B'') \<and>
   (case run [''S''] [''T''] 1 fs_overwrite of
      Inl err \<Rightarrow> False
    | Inr fs' \<Rightarrow> lookup fs' [''T'', ''a_copy0'', ''a''] = Some (File ''A''))"
    by code_simp
  ultimately show ?thesis by blast
qed


section \<open>Effects of the primitive calls and the shape of a walk\<close>

lemma makedirs_isdir:
  assumes "wf_fs fs" "makedirs fs name = Inr fs'"
  shows "isdir fs' name"
proof -
  from makedirs_effect[OF assms]
  have l: "lookup fs' name = (if lookup fs name = None then Some Dir else lookup fs name)"
    by simp
  show ?thesis
  proof (cases "lookup fs name")
    case None
    then show ?thesis using l by (simp add: isdir_def)
  next
    case (Some n)
    have "name = [] \<or> exists fs (butlast name)"
      using wf_parent[OF assms(1), of name] Some isdir_exists by (auto simp: exists_def)
    then have "(case mkdir fs name of
             Inl e \<Rightarrow> if isdir fs name then Inr fs else Inl e
           | Inr fs2 \<Rightarrow> Inr fs2) = Inr fs'"
      using assms(2) by (subst (asm) makedirs.simps) auto
    moreover have "mkdir fs name = Inl FileExistsError"
      using Some by (simp add: mkdir_def exists_def)
    ultimately have "isdir fs name" "fs' = fs" by (auto split: if_splits)
    then show ?thesis by simp
  qed
qed

lemma copyfile_effect:
  assumes "wf_fs fs" "copyfile fs src d = Inr fs'"
  shows "\<exists>c. lookup fs src = Some (File c) \<and> d \<noteq> src \<and> \<not> isdir fs d \<and> d \<noteq> []
            \<and> isdir fs (butlast d) \<and> fs' = AList.update d (File c) fs"
proof -
  from assms(2) obtain c where c: "lookup fs src = Some (File c)" and ne: "src \<noteq> d"
    and nd: "lookup fs d \<noteq> Some Dir"
    and fs': "fs' = AList.update d (File c) fs"
    and par: "lookup fs d = None \<longrightarrow> isdir fs (butlast d)"
    by (auto simp: copyfile_def isdir_def split: if_splits option.splits node.splits)
  have d: "d \<noteq> []" using nd wf_root[OF assms(1)] by (auto simp: isdir_def)
  have "isdir fs (butlast d)"
  proof (cases "lookup fs d")
    case None
    then show ?thesis using par by simp
  next
    case (Some n)
    then show ?thesis using wf_parent[OF assms(1), of d] d by (simp add: exists_def)
  qed
  then show ?thesis using c ne nd fs' d by (auto simp: isdir_def)
qed

lemma shutil_copy_effect:
  assumes "wf_fs fs" "shutil_copy fs src dst = Inr fs'"
  shows "\<exists>c d. d = (if isdir fs dst then dst @ basename src else dst)
            \<and> lookup fs src = Some (File c) \<and> d \<noteq> src \<and> \<not> isdir fs d \<and> d \<noteq> []
            \<and> isdir fs (butlast d) \<and> fs' = AList.update d (File c) fs \<and> wf_fs fs'"
proof -
  let ?d = "if isdir fs dst then dst @ basename src else dst"
  from assms(2) have "copyfile fs src ?d = Inr fs'" by (simp add: shutil_copy_def)
  from copyfile_effect[OF assms(1) this] obtain c where
    c: "lookup fs src = Some (File c)" "?d \<noteq> src" "\<not> isdir fs ?d" "?d \<noteq> []"
      "isdir fs (butlast ?d)" "fs' = AList.update ?d (File c) fs"
    by blast
  have "wf_fs fs'" unfolding c(6) using assms(1) c(4,5,3) by (rule wf_update)
  with c show ?thesis by blast
qed

lemma scandir_set: "set (scandir fs t) = {n. exists fs (t @ [n])}"
proof -
  have "n \<in> set (scandir fs t) \<longleftrightarrow> t @ [n] \<in> fst ` set fs" for n
  proof
    assume "n \<in> set (scandir fs t)"
    then obtain q where q: "q \<in> fst ` set fs" "q \<noteq> []" "butlast q = t" "last q = n"
      by (auto simp: scandir_def)
    then have "q = t @ [n]" using append_butlast_last_id[of q] by simp
    with q show "t @ [n] \<in> fst ` set fs" by simp
  next
    assume "t @ [n] \<in> fst ` set fs"
    then have "t @ [n] \<in> {q \<in> set (map fst fs). q \<noteq> [] \<and> butlast q = t}" by simp
    then have "last (t @ [n]) \<in> set (scandir fs t)"
      unfolding scandir_def set_remdups set_map set_filter by (rule imageI)
    then show "n \<in> set (scandir fs t)" by simp
  qed
  then show ?thesis by (auto simp: exists_iff_key)
qed

lemma os_walk_notdir: "\<not> isdir fs t \<Longrightarrow> os_walk fs t = []"
  by (subst os_walk.simps) simp

lemma os_walk_unfold:
  "isdir fs t \<Longrightarrow> os_walk fs t =
     (t, filter (\<lambda>n. isdir fs (t @ [n])) (scandir fs t),
         filter (\<lambda>n. \<not> isdir fs (t @ [n])) (scandir fs t))
     # concat (map (\<lambda>d. os_walk fs (t @ [d])) (filter (\<lambda>n. isdir fs (t @ [n])) (scandir fs t)))"
  by (subst os_walk.simps) (simp add: Let_def)

lemma os_walk_entry:
  "(root, dirs, files) \<in> set (os_walk fs t) \<Longrightarrow>
     prefix t root \<and> isdir fs root
     \<and> dirs = filter (\<lambda>n. isdir fs (root @ [n])) (scandir fs root)
     \<and> files = filter (\<lambda>n. \<not> isdir fs (root @ [n])) (scandir fs root)"
proof (induction fs t rule: os_walk.induct)
  case (1 fs t)
  show ?case
  proof (cases "isdir fs t")
    case False
    then show ?thesis using "1.prems" by (simp add: os_walk_notdir)
  next
    case True
    let ?dirs = "filter (\<lambda>n. isdir fs (t @ [n])) (scandir fs t)"
    from "1.prems" consider
      (here) "(root, dirs, files) = (t, ?dirs, filter (\<lambda>n. \<not> isdir fs (t @ [n])) (scandir fs t))"
      | (below) d where "d \<in> set ?dirs" "(root, dirs, files) \<in> set (os_walk fs (t @ [d]))"
      by (subst (asm) os_walk_unfold[OF True]) auto
    then show ?thesis
    proof cases
      case here
      then show ?thesis using True by simp
    next
      case (below d)
      from "1.IH"[OF True refl refl below(1) below(2)]
      show ?thesis by (auto dest: append_prefixD)
    qed
  qed
qed

lemma os_walk_complete:
  "wf_fs fs \<Longrightarrow> isdir fs root \<Longrightarrow> prefix t root \<Longrightarrow> root \<in> fst ` set (os_walk fs t)"
proof (induction fs t rule: os_walk.induct)
  case (1 fs t)
  have dt: "isdir fs t" using wf_prefix_dir[OF "1.prems"(1,2,3)] .
  let ?dirs = "filter (\<lambda>n. isdir fs (t @ [n])) (scandir fs t)"
  show ?case
  proof (cases "root = t")
    case True
    then show ?thesis by (subst os_walk_unfold[OF dt]) simp
  next
    case False
    with "1.prems"(3) obtain n rest where r: "root = t @ n # rest"
      by (metis prefix_def append_Nil2 neq_Nil_conv)
    have p: "prefix (t @ [n]) root" using r by simp
    have dn: "isdir fs (t @ [n])" using wf_prefix_dir[OF "1.prems"(1,2) p] .
    then have "n \<in> set ?dirs" by (simp add: scandir_set isdir_exists)
    moreover from "1.IH"[OF dt refl refl this "1.prems"(1,2) p]
    have "root \<in> fst ` set (os_walk fs (t @ [n]))" .
    ultimately show ?thesis
      by (subst os_walk_unfold[OF dt]) force
  qed
qed

lemma relpath_prefix: "prefix start p \<Longrightarrow> start @ relpath p start = p"
  by (auto simp: relpath_def prefix_def)

lemma relpath_append [simp]: "relpath (start @ r) start = r"
  by (simp add: relpath_def)

lemma copies_loop_nothing:
  "os_walk fs source_dir = [] \<Longrightarrow> copies_loop source_dir target_dir xs fs = Inr fs"
  by (induction xs) simp_all

section \<open>A missing source root\<close>

text \<open>
  The script succeeds only if its first part does, and an error of the first part is the
  error of the script.
\<close>

lemma script_success:
  "script stdout source_dir target_dir n fs = Inr fs' \<Longrightarrow> run source_dir target_dir n fs = Inr fs'"
  by (auto simp: script_def split: sum.splits option.splits)

lemma script_failure:
  "run source_dir target_dir n fs = Inl err \<Longrightarrow> script stdout source_dir target_dir n fs = Inl err"
  by (simp add: script_def)

text \<open>
  C6, as stated, at two inputs where the source root does not exist.  With a regular file
  at the target root the script ends in \<^verbatim>\<open>FileExistsError\<close>, raised by the creation of
  the target root.  With a standard output that encodes ASCII only, the script creates the
  target root and then ends in \<^verbatim>\<open>UnicodeEncodeError\<close>, raised by the completion
  message.
\<close>

theorem C6_counterexample:
  "\<not> exists fs_target_is_file [''S''] \<and>
   script stdout_utf8 [''S''] [''T''] 3 fs_target_is_file
     = Inl (FileExistsError, fs_target_is_file) \<and>
   \<not> exists fs_bare [''S''] \<and>
   script stdout_ascii [''S''] [''T''] 3 fs_bare
     = Inl (UnicodeEncodeError, fs_bare @ [([''T''], Dir)])"
  by code_simp

text \<open>
  C6, amended.  If the source root does not exist (and is not an ancestor of the target
  root) and the target root can be created, then for every copy count the traversal yields
  no entry and lines 8 to 25 raise nothing; the script as a whole raises nothing when
  standard output can encode the completion message.  Whatever standard output is, the
  file system that the script leaves is the one that the creation of the target root
  left: the target root is a directory, no regular file is produced, and every node that
  existed before is as it was.
\<close>

theorem C6_missing_source:
  assumes "wf_fs fs" and "\<not> prefix source_dir target_dir" and "\<not> exists fs source_dir"
    and "makedirs fs target_dir = Inr fs'"
  shows "os_walk fs' source_dir = [] \<and> run source_dir target_dir n fs = Inr fs'
         \<and> (list_all stdout (message @ [10])
               \<longrightarrow> script stdout source_dir target_dir n fs = Inr fs')
         \<and> final_fs (script stdout source_dir target_dir n fs) = fs'
         \<and> isdir fs' target_dir
         \<and> (\<forall>p. isfile fs' p = isfile fs p)
         \<and> (\<forall>p. exists fs p \<longrightarrow> lookup fs' p = lookup fs p)"
proof -
  from makedirs_effect[OF assms(1,4)]
  have l: "\<And>q. lookup fs' q =
      (if prefix q target_dir \<and> lookup fs q = None then Some Dir else lookup fs q)"
    by simp
  have "lookup fs' source_dir = None"
    using l[of source_dir] assms(2,3) by (simp add: exists_def)
  then have w: "os_walk fs' source_dir = []"
    by (simp add: os_walk_notdir isdir_def)
  have r: "run source_dir target_dir n fs = Inr fs'"
    using assms(4) copies_loop_nothing[OF w] by (simp add: run_def)
  have "list_all stdout (message @ [10])
          \<longrightarrow> script stdout source_dir target_dir n fs = Inr fs'"
    using r by (simp add: script_def py_print_def)
  moreover have "final_fs (script stdout source_dir target_dir n fs) = fs'"
    using r by (simp add: script_def final_fs_def split: option.splits)
  moreover have "isdir fs' target_dir" using makedirs_isdir[OF assms(1,4)] .
  moreover have "isfile fs' p = isfile fs p" for p
    using l[of p] by (auto simp: isfile_def)
  moreover have "exists fs p \<longrightarrow> lookup fs' p = lookup fs p" for p
    using l[of p] by (auto simp: exists_def)
  ultimately show ?thesis using w r by blast
qed

theorem C6_missing_source_witness:
  "wf_fs fs_bare \<and> \<not> prefix [''S''] [''T''] \<and> \<not> exists fs_bare [''S'']
   \<and> \<not> exists fs_bare [''T'']
   \<and> makedirs fs_bare [''T''] = Inr (fs_bare @ [([''T''], Dir)])
   \<and> list_all stdout_utf8 (message @ [10])
   \<and> os_walk (fs_bare @ [([''T''], Dir)]) [''S''] = []
   \<and> script stdout_utf8 [''S''] [''T''] 3 fs_bare = Inr (fs_bare @ [([''T''], Dir)])
   \<and> isdir (fs_bare @ [([''T''], Dir)]) [''T'']
   \<and> regular_files (fs_bare @ [([''T''], Dir)]) [''T''] = []"
proof -
  have h: "wf_fs fs_bare" "\<not> prefix [''S''] [''T'']" "\<not> exists fs_bare [''S'']"
    "makedirs fs_bare [''T''] = Inr (fs_bare @ [([''T''], Dir)])"
    by code_simp+
  have e: "list_all stdout_utf8 (message @ [10])" "\<not> exists fs_bare [''T'']"
    "regular_files (fs_bare @ [([''T''], Dir)]) [''T''] = []"
    by code_simp+
  from C6_missing_source[OF h, of 3 stdout_utf8] h e show ?thesis by blast
qed

section \<open>The calls of a pass\<close>

lemma pass_ops_mem:
  "x \<in> set (pass_ops source_dir target_dir i s) \<longleftrightarrow>
     (\<exists>root dirs files. (root, dirs, files) \<in> set (os_walk s source_dir) \<and>
        (x = Makedirs (target_dir @ relpath root source_dir) \<or>
         (\<exists>f \<in> set files. x = Copy (root @ [f])
              ((target_dir @ relpath root source_dir) @ [new_filename f i]))))"
  by (auto simp: pass_ops_def) force+

text \<open>What one primitive call changes.\<close>

lemma makedirs_step:
  assumes "wf_fs s" "makedirs s name = Inr s'"
  shows "wf_fs s'" and "isdir s' name"
    and "lookup s' p = (if prefix p name \<and> lookup s p = None then Some Dir else lookup s p)"
  using makedirs_effect[OF assms] makedirs_isdir[OF assms] by auto

lemma copy_step:
  assumes "wf_fs s" "shutil_copy s src dst = Inr s'"
  obtains c d where "d = (if isdir s dst then dst @ basename src else dst)"
    "lookup s src = Some (File c)" "\<not> isdir s d" "lookup s' = (lookup s)(d \<mapsto> File c)"
    "wf_fs s'" "d \<noteq> src"
  using shutil_copy_effect[OF assms] by (auto simp: lookup_update)


section \<open>Directories after a run\<close>

lemma prim_dirs:
  assumes "wf_fs s" "prim s x = Inr s'"
  shows "wf_fs s' \<and> (isdir s' p \<longleftrightarrow> isdir s p \<or> (\<exists>name. x = Makedirs name \<and> prefix p name))"
proof (cases x)
  case (Makedirs name)
  then have m: "makedirs s name = Inr s'" using assms(2) by simp
  note st = makedirs_step[OF assms(1) m]
  have "isdir s' p" if "prefix p name" using wf_prefix_dir[OF st(1,2) that] .
  moreover have "isdir s' p = isdir s p" if "\<not> prefix p name"
    using st(3)[of p] that by (simp add: isdir_def)
  ultimately show ?thesis using st(1) st(3)[of p] Makedirs by (auto simp: isdir_def)
next
  case (Copy src dst)
  then have "shutil_copy s src dst = Inr s'" using assms(2) by simp
  from copy_step[OF assms(1) this] obtain c d where
    "\<not> isdir s d" "lookup s' = (lookup s)(d \<mapsto> File c)" "wf_fs s'"
    by metis
  then show ?thesis using Copy by (auto simp: isdir_def)
qed

lemma prim_frame:
  assumes "wf_fs s" "prim s x = Inr s'" "targets target_dir x"
    and "\<not> prefix target_dir p" "\<not> prefix p target_dir"
  shows "lookup s' p = lookup s p"
proof (cases x)
  case (Makedirs name)
  then have m: "makedirs s name = Inr s'" and t: "prefix target_dir name"
    using assms(2,3) by simp_all
  have "\<not> prefix p name"
    using t assms(4,5) prefix_same_cases by blast
  then show ?thesis using makedirs_step(3)[OF assms(1) m, of p] by simp
next
  case (Copy src dst)
  then have "shutil_copy s src dst = Inr s'" and t: "prefix target_dir dst"
    using assms(2,3) by simp_all
  from copy_step[OF assms(1) this(1)] obtain c d where
    d: "d = (if isdir s dst then dst @ basename src else dst)"
    and l: "lookup s' = (lookup s)(d \<mapsto> File c)"
    by metis
  have "prefix target_dir d" using t d by (auto simp: prefix_def)
  then have "p \<noteq> d" using assms(4) by auto
  then show ?thesis using l by simp
qed

lemma exec_dirs:
  assumes "wf_fs s" "exec ops s = Inr s'"
  shows "wf_fs s' \<and>
         (isdir s' p \<longleftrightarrow> isdir s p \<or> (\<exists>name. Makedirs name \<in> set ops \<and> prefix p name))"
  using assms
proof (induction ops arbitrary: s)
  case Nil
  then show ?case by simp
next
  case (Cons x xs)
  from Cons.prems(2) obtain s1 where x: "prim s x = Inr s1" and xs: "exec xs s1 = Inr s'"
    by (auto split: sum.splits)
  from prim_dirs[OF Cons.prems(1) x, of p] Cons.IH[OF _ xs]
  show ?case by auto
qed

lemma exec_frame:
  assumes "wf_fs s" "exec ops s = Inr s'" "\<forall>x \<in> set ops. targets target_dir x"
    and "\<not> prefix target_dir p" "\<not> prefix p target_dir"
  shows "lookup s' p = lookup s p"
  using assms(1,2,3)
proof (induction ops arbitrary: s)
  case Nil
  then show ?case by simp
next
  case (Cons x xs)
  from Cons.prems(2) obtain s1 where x: "prim s x = Inr s1" and xs: "exec xs s1 = Inr s'"
    by (auto split: sum.splits)
  have "wf_fs s1" using prim_dirs[OF Cons.prems(1) x] by simp
  from Cons.IH[OF this xs] Cons.prems(3)
    prim_frame[OF Cons.prems(1) x _ assms(4,5)]
  show ?case by simp
qed

lemma pass_ops_targets: "\<forall>x \<in> set (pass_ops source_dir target_dir i s). targets target_dir x"
  by (auto simp: pass_ops_mem)

lemma separate_source:
  assumes "separate source_dir target_dir" "prefix source_dir p"
  shows "\<not> prefix target_dir p" "\<not> prefix p target_dir"
  using assms prefix_same_cases[of source_dir p target_dir] prefix_order.trans
  unfolding separate_def by blast+

lemma pass_ops_makedirs:
  assumes "wf_fs s"
  shows "Makedirs name \<in> set (pass_ops source_dir target_dir i s) \<longleftrightarrow>
           (\<exists>root. prefix source_dir root \<and> isdir s root
                    \<and> name = target_dir @ relpath root source_dir)"
proof
  assume "Makedirs name \<in> set (pass_ops source_dir target_dir i s)"
  then obtain root dirs files where "(root, dirs, files) \<in> set (os_walk s source_dir)"
    "name = target_dir @ relpath root source_dir"
    by (auto simp: pass_ops_mem)
  then show "\<exists>root. prefix source_dir root \<and> isdir s root
                    \<and> name = target_dir @ relpath root source_dir"
    using os_walk_entry by blast
next
  assume "\<exists>root. prefix source_dir root \<and> isdir s root
                    \<and> name = target_dir @ relpath root source_dir"
  then obtain root where r: "prefix source_dir root" "isdir s root"
    "name = target_dir @ relpath root source_dir" by blast
  from os_walk_complete[OF assms r(2,1)] obtain dirs files where
    "(root, dirs, files) \<in> set (os_walk s source_dir)" by force
  then show "Makedirs name \<in> set (pass_ops source_dir target_dir i s)"
    using r(3) by (auto simp: pass_ops_mem)
qed

lemma copies_loop_dirs:
  assumes sep: "separate source_dir target_dir"
  shows "wf_fs s \<Longrightarrow> copies_loop source_dir target_dir xs s = Inr s' \<Longrightarrow>
     wf_fs s' \<and> (\<forall>p. prefix source_dir p \<longrightarrow> lookup s' p = lookup s p) \<and>
     (\<forall>p. isdir s' p \<longleftrightarrow> isdir s p \<or>
        (xs \<noteq> [] \<and> (\<exists>root. prefix source_dir root \<and> isdir s root
                          \<and> prefix p (target_dir @ relpath root source_dir))))"
proof (induction xs arbitrary: s)
  case Nil
  then show ?case by simp
next
  case (Cons i xs)
  from Cons.prems(2) obtain s1 where
    w: "walk_loop source_dir target_dir i (os_walk s source_dir) s = Inr s1"
    and l: "copies_loop source_dir target_dir xs s1 = Inr s'"
    by (auto split: sum.splits)
  have e: "exec (pass_ops source_dir target_dir i s) s = Inr s1"
    using w by (simp add: walk_loop_exec pass_ops_def)
  have wf1: "wf_fs s1" using exec_dirs[OF Cons.prems(1) e] by simp
  have d1: "isdir s1 p \<longleftrightarrow> isdir s p \<or>
      (\<exists>root. prefix source_dir root \<and> isdir s root
               \<and> prefix p (target_dir @ relpath root source_dir))" for p
    using exec_dirs[OF Cons.prems(1) e, of p] pass_ops_makedirs[OF Cons.prems(1)]
    by auto
  have f1: "lookup s1 p = lookup s p" if "prefix source_dir p" for p
    using exec_frame[OF Cons.prems(1) e pass_ops_targets] separate_source[OF sep that]
    by blast
  have src1: "isdir s1 root = isdir s root" if "prefix source_dir root" for root
    using f1[OF that] by (simp add: isdir_def)
  from Cons.IH[OF wf1 l] have wf': "wf_fs s'"
    and f': "\<And>p. prefix source_dir p \<Longrightarrow> lookup s' p = lookup s1 p"
    and d': "\<And>p. isdir s' p \<longleftrightarrow> isdir s1 p \<or>
        (xs \<noteq> [] \<and> (\<exists>root. prefix source_dir root \<and> isdir s1 root
                          \<and> prefix p (target_dir @ relpath root source_dir)))"
    by blast+
  have "isdir s' p \<longleftrightarrow> isdir s p \<or>
        (\<exists>root. prefix source_dir root \<and> isdir s root
                          \<and> prefix p (target_dir @ relpath root source_dir))" for p
    using d'[of p] d1[of p] src1 by blast
  then show ?case using wf' f' f1 by simp
qed

text \<open>
  C4, as stated, at a target that holds a directory \<open>old\<close> before the run, with an empty
  source tree and one pass: the run succeeds and changes nothing, \<open>old\<close> is a directory
  under the target root and not under the source root.
\<close>

theorem C4_counterexample:
  "run [''S''] [''T''] 1 fs_old_dir = Inr fs_old_dir \<and>
   [''old''] \<in> rel_dirs fs_old_dir [''T''] \<and> [''old''] \<notin> rel_dirs fs_old_dir [''S'']"
proof -
  have "run [''S''] [''T''] 1 fs_old_dir = Inr fs_old_dir \<and>
    isdir fs_old_dir ([''T''] @ [''old'']) \<and> \<not> isdir fs_old_dir ([''S''] @ [''old''])"
    by code_simp
  then show ?thesis by (simp add: rel_dirs_def)
qed

text \<open>
  C4, amended.  Let the source and the target root be separate, and let every directory
  that exists under the target root before the run have its counterpart under the source
  root (in particular: the target root is missing or empty).  After a successful run with
  at least one pass, the relative paths of the directories under the target root are
  exactly those of the directories under the source root, whatever the copy count and
  whichever pass created a directory; the directories under the source root are as
  before.
\<close>

theorem C4_directories_mirrored:
  assumes "wf_fs fs" and "separate source_dir target_dir"
    and "run source_dir target_dir n fs = Inr fs'" and "1 \<le> n"
    and "rel_dirs fs target_dir \<subseteq> rel_dirs fs source_dir"
  shows "rel_dirs fs' target_dir = rel_dirs fs source_dir
         \<and> rel_dirs fs' source_dir = rel_dirs fs source_dir"
proof -
  from assms(3) obtain fs0 where m: "makedirs fs target_dir = Inr fs0"
    and l: "copies_loop source_dir target_dir [0..<n] fs0 = Inr fs'"
    by (auto simp: run_def split: sum.splits)
  note st = makedirs_step[OF assms(1) m]
  from copies_loop_dirs[OF assms(2) st(1) l] assms(4)
  have f: "\<And>p. prefix source_dir p \<Longrightarrow> lookup fs' p = lookup fs0 p"
    and d: "\<And>p. isdir fs' p \<longleftrightarrow> isdir fs0 p \<or>
        (\<exists>root. prefix source_dir root \<and> isdir fs0 root
                          \<and> prefix p (target_dir @ relpath root source_dir))"
    by auto
  have s0: "lookup fs0 p = lookup fs p" if "prefix source_dir p" for p
    using st(3)[of p] separate_source(2)[OF assms(2) that] by simp
  have t0: "isdir fs0 (target_dir @ rel) = isdir fs (target_dir @ rel)" if "rel \<noteq> []" for rel
    using st(3)[of "target_dir @ rel"] that by (simp add: isdir_def)
  have src: "isdir fs' (source_dir @ rel) = isdir fs (source_dir @ rel)" for rel
    using f[of "source_dir @ rel"] s0[of "source_dir @ rel"] by (simp add: isdir_def)
  have "isdir fs' (target_dir @ rel) \<longleftrightarrow> isdir fs (source_dir @ rel)" if ne: "rel \<noteq> []" for rel
  proof
    assume "isdir fs' (target_dir @ rel)"
    then consider "isdir fs0 (target_dir @ rel)"
      | root where "prefix source_dir root" "isdir fs0 root"
          "prefix (target_dir @ rel) (target_dir @ relpath root source_dir)"
      using d[of "target_dir @ rel"] by blast
    then show "isdir fs (source_dir @ rel)"
    proof cases
      case 1
      then show ?thesis using t0[OF ne] assms(5) ne by (auto simp: rel_dirs_def)
    next
      case (2 root)
      then have "isdir fs root" using s0[of root] by (simp add: isdir_def)
      moreover have "prefix (source_dir @ rel) root"
        using 2(3) relpath_prefix[OF 2(1)] by (metis same_prefix_prefix)
      ultimately show ?thesis using wf_prefix_dir[OF assms(1)] by blast
    qed
  next
    assume a: "isdir fs (source_dir @ rel)"
    then have "isdir fs0 (source_dir @ rel)" using s0[of "source_dir @ rel"] by (simp add: isdir_def)
    then show "isdir fs' (target_dir @ rel)"
      using d[of "target_dir @ rel"] by (intro iffD2[OF d] disjI2 exI[of _ "source_dir @ rel"]) simp
  qed
  then show ?thesis using src by (auto simp: rel_dirs_def)
qed

theorem C4_directories_mirrored_witness:
  "wf_fs fs_tree \<and> separate [''S''] [''T''] \<and> run [''S''] [''T''] 2 fs_tree = Inr fs_tree_copied
   \<and> (1::nat) \<le> 2 \<and> rel_dirs fs_tree [''T''] \<subseteq> rel_dirs fs_tree [''S'']
   \<and> rel_dirs fs_tree_copied [''T''] = rel_dirs fs_tree [''S'']
   \<and> [''sub''] \<in> rel_dirs fs_tree_copied [''T'']"
proof -
  have h: "wf_fs fs_tree" "separate [''S''] [''T'']"
    "run [''S''] [''T''] 2 fs_tree = Inr fs_tree_copied" "(1::nat) \<le> 2"
    by code_simp+
  have e: "rel_dirs fs_tree [''T''] \<subseteq> rel_dirs fs_tree [''S'']"
    by (auto simp: rel_dirs_def isdir_def lookup_def fs_tree_def)
  have m: "[''sub''] \<in> rel_dirs fs_tree_copied [''T'']"
    by (simp add: rel_dirs_def isdir_def lookup_def fs_tree_def fs_tree_copied_def)
  from C4_directories_mirrored[OF h e] h e m show ?thesis by blast
qed


section \<open>Running again over the same target\<close>

text \<open>The two roots of the script are separate, and a successful run leaves the source tree as it was.\<close>

lemma roots_separate: "separate SOURCE_DIR TARGET_DIR"
  by (simp add: separate_def SOURCE_DIR_def TARGET_DIR_def)

lemma run_source_unchanged:
  assumes "wf_fs fs" and "separate source_dir target_dir"
    and "run source_dir target_dir n fs = Inr fs'" and "prefix source_dir p"
  shows "lookup fs' p = lookup fs p"
proof -
  from assms(3) obtain fs0 where m: "makedirs fs target_dir = Inr fs0"
    and l: "copies_loop source_dir target_dir [0..<n] fs0 = Inr fs'"
    by (auto simp: run_def split: sum.splits)
  note st = makedirs_step[OF assms(1) m]
  have "lookup fs0 p = lookup fs p"
    using st(3)[of p] separate_source(2)[OF assms(2,4)] by simp
  then show ?thesis using copies_loop_dirs[OF assms(2) st(1) l] assms(4) by simp
qed

text \<open>
  C8.  Every directory-creation step of the script is \<^verbatim>\<open>os.makedirs(..., exist_ok=True)\<close>.
  On a directory that exists already the step succeeds and leaves the file system as it
  is: the directory is reused.  After a successful run the target root and the mirror of
  every source directory exist, so in the file system that the run leaves the creation of
  the target root and every directory-creation step of a pass succeed and change nothing:
  a second run over the same target root does not fail because of the directories of the
  first.
\<close>

theorem C8_existing_directories_reused:
  "(wf_fs s \<and> isdir s name \<longrightarrow> makedirs s name = Inr s) \<and>
   (wf_fs fs \<and> separate source_dir target_dir \<and> 1 \<le> n \<and>
    run source_dir target_dir n fs = Inr fs' \<and>
    Makedirs name' \<in> set (Makedirs target_dir # pass_ops source_dir target_dir i fs')
      \<longrightarrow> makedirs fs' name' = Inr fs')"
proof (intro conjI impI)
  assume "wf_fs s \<and> isdir s name"
  then show "makedirs s name = Inr s" using makedirs_existing by blast
next
  assume a: "wf_fs fs \<and> separate source_dir target_dir \<and> 1 \<le> n \<and>
    run source_dir target_dir n fs = Inr fs' \<and>
    Makedirs name' \<in> set (Makedirs target_dir # pass_ops source_dir target_dir i fs')"
  then have wf: "wf_fs fs" and sep: "separate source_dir target_dir" and n: "1 \<le> n"
    by blast+
  from a obtain fs0 where m: "makedirs fs target_dir = Inr fs0"
    and l: "copies_loop source_dir target_dir [0..<n] fs0 = Inr fs'"
    by (auto simp: run_def split: sum.splits)
  note st = makedirs_step[OF wf m]
  from copies_loop_dirs[OF sep st(1) l] n
  have wf': "wf_fs fs'"
    and f: "\<And>p. prefix source_dir p \<Longrightarrow> lookup fs' p = lookup fs0 p"
    and d: "\<And>p. isdir fs' p \<longleftrightarrow> isdir fs0 p \<or>
        (\<exists>root. prefix source_dir root \<and> isdir fs0 root
                          \<and> prefix p (target_dir @ relpath root source_dir))"
    by auto
  have "isdir fs' name'"
  proof (cases "name' = target_dir")
    case True
    then show ?thesis using d[of target_dir] st(2) by simp
  next
    case False
    then have "Makedirs name' \<in> set (pass_ops source_dir target_dir i fs')" using a by simp
    then obtain root where r: "prefix source_dir root" "isdir fs' root"
      "name' = target_dir @ relpath root source_dir"
      using pass_ops_makedirs[OF wf'] by blast
    have "isdir fs0 root" using f[OF r(1)] r(2) by (simp add: isdir_def)
    then show ?thesis using d[of name'] r(1,3) by blast
  qed
  then show "makedirs fs' name' = Inr fs'" using makedirs_existing[OF wf'] by blast
qed

theorem C8_existing_directories_reused_witness:
  "wf_fs fs_tree \<and> separate [''S''] [''T''] \<and> (1::nat) \<le> 2
   \<and> run [''S''] [''T''] 2 fs_tree = Inr fs_tree_copied
   \<and> Makedirs [''T'', ''sub'']
        \<in> set (Makedirs [''T''] # pass_ops [''S''] [''T''] 0 fs_tree_copied)
   \<and> wf_fs fs_tree_copied \<and> isdir fs_tree_copied [''T'', ''sub'']
   \<and> makedirs fs_tree_copied [''T'', ''sub''] = Inr fs_tree_copied
   \<and> run [''S''] [''T''] 2 fs_tree_copied = Inr fs_tree_copied"
proof -
  have h: "wf_fs fs_tree \<and> separate [''S''] [''T''] \<and> (1::nat) \<le> 2
   \<and> run [''S''] [''T''] 2 fs_tree = Inr fs_tree_copied
   \<and> Makedirs [''T'', ''sub'']
        \<in> set (Makedirs [''T''] # pass_ops [''S''] [''T''] 0 fs_tree_copied)"
    by code_simp
  have g: "wf_fs fs_tree_copied \<and> isdir fs_tree_copied [''T'', ''sub'']"
    by code_simp
  have r: "run [''S''] [''T''] 2 fs_tree_copied = Inr fs_tree_copied"
    by code_simp
  from C8_existing_directories_reused[where s = fs_tree_copied and name = "[''T'', ''sub'']"
      and source_dir = "[''S'']" and target_dir = "[''T'']" and n = 2 and fs = fs_tree
      and fs' = fs_tree_copied and name' = "[''T'', ''sub'']" and i = 0] h g r
  show ?thesis by blast
qed

section \<open>Independence of the enumeration order\<close>

subsection \<open>The state of a pass does not depend on the order of its calls\<close>

lemma pass_state_unique:
  assumes "pass_state m X s" "pass_state m X t"
  shows "s = t"
proof
  fix p
  show "s p = t p"
  proof (cases "\<exists>c. plain_write m X p c")
    case True
    then show ?thesis using assms unfolding pass_state_def cell_def by metis
  next
    case np: False
    show ?thesis
    proof (cases "\<exists>c. redir_write m X p c")
      case True
      then show ?thesis using assms np unfolding pass_state_def cell_def by metis
    next
      case False
      then have "s p = (if made_dir X p \<and> m p = None then Some Dir else m p)"
        "t p = (if made_dir X p \<and> m p = None then Some Dir else m p)"
        using assms np unfolding pass_state_def cell_def by blast+
      then show ?thesis by simp
    qed
  qed
qed

lemma pass_state_init: "pass_state m {} m"
  by (simp add: pass_state_def cell_def plain_write_def redir_write_def made_dir_def)

lemma pass_state_source:
  assumes inv: "pass_state m X s" and sep: "separate source_dir target_dir"
    and sh: "shaped source_dir target_dir X" and p: "prefix source_dir p"
  shows "s p = m p"
proof -
  note ns = separate_source[OF sep p]
  have 1: "\<not> plain_write m X p c" for c
    using sh ns(1) unfolding plain_write_def shaped_def by blast
  have 2: "\<not> redir_write m X p c" for c
  proof
    assume "redir_write m X p c"
    then obtain src dst where "Copy src dst \<in> X" "p = dst @ basename src"
      unfolding redir_write_def by blast
    then have "prefix target_dir p" using sh unfolding shaped_def by (metis prefix_prefix)
    then show False using ns(1) by simp
  qed
  have 3: "\<not> made_dir X p"
  proof
    assume "made_dir X p"
    then obtain name where "prefix target_dir name" "prefix p name"
      using sh unfolding made_dir_def shaped_def by blast
    then show False using ns prefix_same_cases by blast
  qed
  show ?thesis using inv 1 2 3 unfolding pass_state_def cell_def by simp
qed

lemma pass_state_makedirs:
  assumes inv: "pass_state m X (lookup s)" and wf: "wf_fs s"
    and mk: "makedirs s name = Inr s'"
  shows "pass_state m (insert (Makedirs name) X) (lookup s')"
proof -
  let ?X = "insert (Makedirs name) X"
  note st = makedirs_step[OF wf mk]
  have pw: "plain_write m ?X = plain_write m X"
    by (intro ext) (simp add: plain_write_def)
  have rw: "redir_write m ?X = redir_write m X"
    by (intro ext) (simp add: redir_write_def)
  have md: "made_dir ?X p \<longleftrightarrow> made_dir X p \<or> prefix p name" for p
    by (auto simp: made_dir_def)
  show ?thesis
    unfolding pass_state_def cell_def pw rw
  proof (intro allI conjI impI)
    fix p c assume "plain_write m X p c"
    then have "lookup s p = Some (File c)" using inv unfolding pass_state_def cell_def by blast
    then show "lookup s' p = Some (File c)" using st(3)[of p] by simp
  next
    fix p c assume "\<nexists>c. plain_write m X p c" "redir_write m X p c"
    then have "lookup s p = Some (File c)" using inv unfolding pass_state_def cell_def by blast
    then show "lookup s' p = Some (File c)" using st(3)[of p] by simp
  next
    fix p assume "(\<nexists>c. plain_write m X p c) \<and> (\<nexists>c. redir_write m X p c)"
    then have sp: "lookup s p = (if made_dir X p \<and> m p = None then Some Dir else m p)"
      using inv unfolding pass_state_def cell_def by blast
    show "lookup s' p = (if made_dir ?X p \<and> m p = None then Some Dir else m p)"
      using sp st(3)[of p] md[of p] by (auto split: if_splits)
  next
    fix p c assume "redir_write m X p c"
    then show "m p \<noteq> Some Dir" using inv unfolding pass_state_def cell_def by blast
  qed
qed

lemma basename_single: "src \<noteq> [] \<Longrightarrow> basename src = [last src]"
  by (cases src) (simp_all add: basename_def)

lemma shaped_subset:
  assumes "shaped source_dir target_dir Y" "X \<subseteq> Y"
  shows "shaped source_dir target_dir X"
proof -
  have 1: "prefix target_dir name" if "Makedirs name \<in> X" for name
    using that assms unfolding shaped_def by blast
  have 2: "prefix source_dir src \<and> src \<noteq> [] \<and> prefix target_dir dst \<and> dst \<noteq> [] \<and>
          (\<forall>src'. Copy src' dst \<in> X \<longrightarrow> src' = src)" if a: "Copy src dst \<in> X" for src dst
  proof -
    have b: "Copy src dst \<in> Y" using a assms(2) by blast
    from assms(1) b have "prefix source_dir src \<and> src \<noteq> [] \<and> prefix target_dir dst \<and> dst \<noteq> []"
      and f: "\<And>src'. Copy src' dst \<in> Y \<Longrightarrow> src' = src"
      unfolding shaped_def by blast+
    then show ?thesis using assms(2) by blast
  qed
  show ?thesis unfolding shaped_def using 1 2 by blast
qed

lemma pass_state_copy:
  assumes inv: "pass_state m X (lookup s)" and wf: "wf_fs s"
    and sep: "separate source_dir target_dir"
    and sh: "shaped source_dir target_dir (insert (Copy src dst) X)"
    and ord: "\<forall>y \<in> X. \<not> strict_prefix (butlast dst) (home y)"
    and cp: "shutil_copy s src dst = Inr s'"
  shows "pass_state m (insert (Copy src dst) X) (lookup s')"
proof -
  let ?X = "insert (Copy src dst) X"
  have shX: "shaped source_dir target_dir X"
    using shaped_subset[OF sh] by blast
  have src: "prefix source_dir src" "src \<noteq> []" and dst: "prefix target_dir dst" "dst \<noteq> []"
    and fn: "\<And>src'. Copy src' dst \<in> ?X \<Longrightarrow> src' = src"
    using sh unfolding shaped_def by blast+
  have bl: "butlast dst @ [last dst] = dst" using dst(2) by simp
  have sp: "strict_prefix (butlast dst) dst" using bl by (metis strict_prefixI' )
  have F1: "\<not> made_dir X dst"
  proof
    assume "made_dir X dst"
    then obtain name where n: "Makedirs name \<in> X" "prefix dst name"
      unfolding made_dir_def by blast
    then have "strict_prefix (butlast dst) (home (Makedirs name))"
      using sp by (simp add: prefix_order.less_le_trans)
    then show False using ord n(1) by blast
  qed
  have F2: "Copy src' (dst @ basename src) \<notin> X" for src'
  proof
    assume a: "Copy src' (dst @ basename src) \<in> X"
    have "home (Copy src' (dst @ basename src)) = dst"
      by (simp add: basename_single[OF src(2)] butlast_append)
    then show False using ord a sp by force
  qed
  have F3: "lookup s p = m p" if "prefix source_dir p" for p
    using pass_state_source[OF inv sep shX that] .
  have F4: "isdir s dst \<longleftrightarrow> m dst = Some Dir"
  proof
    assume d: "isdir s dst"
    have "\<nexists>c. plain_write m X dst c" "\<nexists>c. redir_write m X dst c"
      using inv d unfolding pass_state_def cell_def isdir_def by (metis node.distinct(1) option.inject)+
    then have "lookup s dst = (if made_dir X dst \<and> m dst = None then Some Dir else m dst)"
      using inv unfolding pass_state_def cell_def by blast
    then show "m dst = Some Dir" using F1 d by (simp add: isdir_def)
  next
    assume d: "m dst = Some Dir"
    have "\<nexists>c. plain_write m X dst c" using d by (simp add: plain_write_def)
    moreover have "\<nexists>c. redir_write m X dst c" using inv d unfolding pass_state_def cell_def by blast
    ultimately have "lookup s dst = (if made_dir X dst \<and> m dst = None then Some Dir else m dst)"
      using inv unfolding pass_state_def cell_def by blast
    then show "isdir s dst" using d by (simp add: isdir_def)
  qed
  from copy_step[OF wf cp] obtain c d where
    d: "d = (if isdir s dst then dst @ basename src else dst)"
    and c: "lookup s src = Some (File c)"
    and nd: "\<not> isdir s d"
    and l: "lookup s' = (lookup s)(d \<mapsto> File c)"
    by metis
  have mc: "m src = Some (File c)" using F3[OF src(1)] c by simp
  have F5: "m d \<noteq> Some Dir"
  proof
    assume a: "m d = Some Dir"
    have "\<nexists>c. plain_write m X d c" using a by (simp add: plain_write_def)
    moreover have "\<nexists>c. redir_write m X d c" using inv a unfolding pass_state_def cell_def by blast
    ultimately have "lookup s d = (if made_dir X d \<and> m d = None then Some Dir else m d)"
      using inv unfolding pass_state_def cell_def by blast
    then show False using a nd by (simp add: isdir_def)
  qed
  have pw: "plain_write m ?X p c' \<longleftrightarrow>
      plain_write m X p c' \<or> (p = dst \<and> m dst \<noteq> Some Dir \<and> c' = c)" for p c'
    using mc by (auto simp: plain_write_def)
  have rw: "redir_write m ?X p c' \<longleftrightarrow>
      redir_write m X p c' \<or> (m dst = Some Dir \<and> p = dst @ basename src \<and> c' = c)" for p c'
    using mc by (auto simp: redir_write_def)
  have md: "made_dir ?X = made_dir X"
    by (intro ext) (simp add: made_dir_def)
  have old_plain: "c' = c" if "plain_write m X dst c'" for c'
  proof -
    from that obtain src' where "Copy src' dst \<in> X" "m src' = Some (File c')"
      unfolding plain_write_def by blast
    then show ?thesis using fn[of src'] mc by simp
  qed
  have old_redir: "c' = c" if "redir_write m X (dst @ basename src) c'" for c'
  proof -
    from that obtain src' dst' where o: "Copy src' dst' \<in> X"
      "dst @ basename src = dst' @ basename src'" "m src' = Some (File c')"
      unfolding redir_write_def by blast
    have "src' \<noteq> []" using shX o(1) unfolding shaped_def by blast
    then have "dst' = dst" using o(2) by (simp add: basename_single src(2))
    then show ?thesis using fn[of src'] o(1,3) mc by simp
  qed
  have other: "cell m ?X (lookup s' p) p" if "p \<noteq> d" for p
  proof -
    have "plain_write m ?X p = plain_write m X p" "redir_write m ?X p = redir_write m X p"
      using that d F4 by (auto simp: pw rw)
    moreover have "lookup s' p = lookup s p" using that l by simp
    moreover have "cell m X (lookup s p) p" using inv unfolding pass_state_def by blast
    ultimately show ?thesis unfolding cell_def md by simp
  qed
  have here: "cell m ?X (Some (File c)) d"
  proof (cases "m dst = Some Dir")
    case plain: False
    then have dd: "d = dst" using d F4 by simp
    have 1: "plain_write m ?X d c" using plain dd by (simp add: pw)
    have 2: "c' = c" if "plain_write m ?X d c'" for c'
      using that old_plain dd by (auto simp: pw)
    show ?thesis
      unfolding cell_def using 1 2 F5 by blast
  next
    case redir: True
    then have dd: "d = dst @ basename src" using d F4 by simp
    have 0: "\<not> plain_write m ?X d c'" for c'
      using F2 redir by (auto simp: pw plain_write_def dd)
    have 1: "redir_write m ?X d c" using redir dd by (simp add: rw)
    have 2: "c' = c" if "redir_write m ?X d c'" for c'
      using that old_redir by (auto simp: rw dd)
    show ?thesis
      unfolding cell_def using 0 1 2 F5 by blast
  qed
  have "cell m ?X (lookup s' p) p" for p
  proof (cases "p = d")
    case True
    then show ?thesis using here l by simp
  next
    case False
    then show ?thesis by (rule other)
  qed
  then show ?thesis unfolding pass_state_def by blast
qed

subsection \<open>A walk is top-down\<close>

lemma same_tree_iff: "same_tree a b \<longleftrightarrow> lookup a = lookup b"
proof
  assume "lookup a = lookup b"
  then show "same_tree a b" by (simp add: same_tree_def list_all_iff)
next
  assume st: "same_tree a b"
  show "lookup a = lookup b"
  proof
    fix p
    show "lookup a p = lookup b p"
    proof (cases "p \<in> fst ` set a \<or> p \<in> fst ` set b")
      case True
      then show ?thesis using st unfolding same_tree_def list_all_iff by force
    next
      case False
      then show ?thesis using exists_iff_key[of a p] exists_iff_key[of b p]
        by (simp add: exists_def)
    qed
  qed
qed

lemma topdown_append:
  "topdown (xs @ ys) \<longleftrightarrow>
     topdown xs \<and> topdown ys \<and> (\<forall>x \<in> set xs. \<forall>y \<in> set ys. \<not> strict_prefix y x)"
  by (induction xs) auto

lemma topdown_replicate: "topdown (replicate k h)"
  by (induction k) auto

lemma topdown_repeat:
  "topdown (map f es) \<Longrightarrow> topdown (concat (map (\<lambda>e. replicate (k e) (f e)) es))"
  by (induction es) (auto simp: topdown_append topdown_replicate)

lemma topdown_children:
  assumes "distinct ds"
    and "\<And>d. d \<in> set ds \<Longrightarrow> topdown (g d)"
    and "\<And>d y. d \<in> set ds \<Longrightarrow> y \<in> set (g d) \<Longrightarrow> prefix (t @ [d]) y"
  shows "topdown (concat (map g ds))"
  using assms
proof (induction ds)
  case Nil
  then show ?case by simp
next
  case (Cons d ds)
  have "\<not> strict_prefix y x" if "x \<in> set (g d)" "d' \<in> set ds" "y \<in> set (g d')" for x y d'
  proof
    assume "strict_prefix y x"
    moreover have "prefix (t @ [d']) y" "prefix (t @ [d]) x"
      using Cons.prems(3) that by simp_all
    ultimately have "prefix (t @ [d']) x"
      unfolding strict_prefix_def using prefix_order.trans by blast
    with \<open>prefix (t @ [d]) x\<close>
    have "prefix (t @ [d']) (t @ [d]) \<or> prefix (t @ [d]) (t @ [d'])"
      using prefix_same_cases by blast
    then have "d' = d" by auto
    then show False using Cons.prems(1) that(2) by auto
  qed
  then show ?case using Cons by (auto simp: topdown_append)
qed

lemma os_walk_topdown: "topdown (map fst (os_walk fs t))"
proof (induction fs t rule: os_walk.induct)
  case (1 fs t)
  show ?case
  proof (cases "isdir fs t")
    case False
    then show ?thesis by (simp add: os_walk_notdir)
  next
    case True
    let ?dirs = "filter (\<lambda>n. isdir fs (t @ [n])) (scandir fs t)"
    have below: "prefix (t @ [d]) y" if "y \<in> set (map fst (os_walk fs (t @ [d])))" for d y
      using that os_walk_entry by fastforce
    have "topdown (concat (map (\<lambda>d. map fst (os_walk fs (t @ [d]))) ?dirs))"
    proof (rule topdown_children[where t = t])
      show "distinct ?dirs" by (simp add: scandir_def)
    next
      fix d assume "d \<in> set ?dirs"
      then show "topdown (map fst (os_walk fs (t @ [d])))"
        using "1.IH"[OF True refl refl] by blast
    next
      fix d y assume "y \<in> set (map fst (os_walk fs (t @ [d])))"
      then show "prefix (t @ [d]) y" by (rule below)
    qed
    moreover have "\<not> strict_prefix y t"
      if "y \<in> set (concat (map (\<lambda>d. map fst (os_walk fs (t @ [d]))) ?dirs))" for y
    proof -
      from that obtain d where "prefix (t @ [d]) y" using below by auto
      show ?thesis
      proof
        assume "strict_prefix y t"
        then have "prefix y t" by (simp add: strict_prefix_def)
        with \<open>prefix (t @ [d]) y\<close> have "prefix (t @ [d]) t" using prefix_order.trans by blast
        then have "length (t @ [d]) \<le> length t" by (rule prefix_length_le)
        then show False by simp
      qed
    qed
    ultimately show ?thesis
      by (subst os_walk_unfold[OF True]) (simp add: map_concat comp_def)
  qed
qed

lemma topdown_before:
  "topdown (as @ b # cs) \<Longrightarrow> y \<in> set as \<Longrightarrow> \<not> strict_prefix b y"
  by (simp add: topdown_append)

lemma topdown_dest:
  assumes "\<forall>r \<in> set rs. prefix source_dir r" "topdown rs"
  shows "topdown (map (\<lambda>r. target_dir @ relpath r source_dir) rs)"
  using assms
proof (induction rs)
  case Nil
  then show ?case by simp
next
  case (Cons h rs)
  have "\<not> strict_prefix (target_dir @ relpath y source_dir) (target_dir @ relpath h source_dir)"
    if y: "y \<in> set rs" for y
  proof
    assume "strict_prefix (target_dir @ relpath y source_dir) (target_dir @ relpath h source_dir)"
    then have "strict_prefix (relpath y source_dir) (relpath h source_dir)"
      by (simp add: strict_prefix_def)
    then have "strict_prefix (source_dir @ relpath y source_dir) (source_dir @ relpath h source_dir)"
      by (simp add: strict_prefix_def)
    then have "strict_prefix y h"
      using Cons.prems(1) y by (simp add: relpath_prefix)
    then show False using Cons.prems(2) y by simp
  qed
  then show ?case using Cons by simp
qed

lemma butlast_snoc2: "butlast (a @ b @ [c]) = a @ b"
  using butlast_snoc[of "a @ b" c] by simp

lemma home_entry_ops:
  "map home (entry_ops source_dir target_dir i e) =
     replicate (Suc (length (snd (snd e)))) (target_dir @ relpath (fst e) source_dir)"
  by (cases e) (simp add: map_replicate_const comp_def butlast_snoc2)

lemma pass_ops_topdown: "topdown (map home (pass_ops source_dir target_dir i s))"
proof -
  let ?w = "os_walk s source_dir"
  have "\<forall>r \<in> set (map fst ?w). prefix source_dir r"
    using os_walk_entry by fastforce
  then have "topdown (map (\<lambda>r. target_dir @ relpath r source_dir) (map fst ?w))"
    using os_walk_topdown by (rule topdown_dest)
  then have "topdown (map (\<lambda>e. target_dir @ relpath (fst e) source_dir) ?w)"
    by (simp add: comp_def)
  then have "topdown (concat (map (\<lambda>e. replicate (Suc (length (snd (snd e))))
                 (target_dir @ relpath (fst e) source_dir)) ?w))"
    by (rule topdown_repeat)
  then show ?thesis
    by (simp add: pass_ops_def map_concat comp_def home_entry_ops)
qed

lemma pass_ops_shaped: "shaped source_dir target_dir (set (pass_ops source_dir target_dir i s))"
proof -
  have cp: "\<exists>root f. prefix source_dir root \<and> src = root @ [f] \<and>
              dst = (target_dir @ relpath root source_dir) @ [new_filename f i]"
    if "Copy src dst \<in> set (pass_ops source_dir target_dir i s)" for src dst
    using that os_walk_entry unfolding pass_ops_mem by fastforce
  have 1: "prefix target_dir name"
    if "Makedirs name \<in> set (pass_ops source_dir target_dir i s)" for name
    using that unfolding pass_ops_mem by auto
  have 2: "prefix source_dir src \<and> src \<noteq> [] \<and> prefix target_dir dst \<and> dst \<noteq> [] \<and>
          (\<forall>src'. Copy src' dst \<in> set (pass_ops source_dir target_dir i s) \<longrightarrow> src' = src)"
    if a: "Copy src dst \<in> set (pass_ops source_dir target_dir i s)" for src dst
  proof -
    from cp[OF a] obtain root f where r: "prefix source_dir root" "src = root @ [f]"
      "dst = (target_dir @ relpath root source_dir) @ [new_filename f i]" by blast
    have "src' = src" if "Copy src' dst \<in> set (pass_ops source_dir target_dir i s)" for src'
    proof -
      from cp[OF that] obtain root' f' where r': "prefix source_dir root'" "src' = root' @ [f']"
        "dst = (target_dir @ relpath root' source_dir) @ [new_filename f' i]" by blast
      from r(3) r'(3) have "relpath root source_dir = relpath root' source_dir" "f = f'"
        using new_filename_inj by auto
      then show ?thesis using r r' relpath_prefix by metis
    qed
    then show ?thesis using r by (auto simp: prefix_def)
  qed
  show ?thesis unfolding shaped_def using 1 2 by blast
qed

lemma pass_ops_set:
  assumes "wf_fs s"
  shows "set (pass_ops source_dir target_dir i s) =
     {x. \<exists>root. prefix source_dir root \<and> lookup s root = Some Dir \<and>
           (x = Makedirs (target_dir @ relpath root source_dir) \<or>
            (\<exists>f. lookup s (root @ [f]) \<noteq> None \<and> lookup s (root @ [f]) \<noteq> Some Dir \<and>
                 x = Copy (root @ [f])
                       ((target_dir @ relpath root source_dir) @ [new_filename f i])))}"
  (is "?L = ?R")
proof (intro set_eqI iffI)
  fix x assume "x \<in> ?L"
  then obtain root dirs files where e: "(root, dirs, files) \<in> set (os_walk s source_dir)"
    and x: "x = Makedirs (target_dir @ relpath root source_dir) \<or>
         (\<exists>f \<in> set files. x = Copy (root @ [f])
              ((target_dir @ relpath root source_dir) @ [new_filename f i]))"
    unfolding pass_ops_mem by blast
  from os_walk_entry[OF e] have r: "prefix source_dir root" "isdir s root"
    and f: "files = filter (\<lambda>n. \<not> isdir s (root @ [n])) (scandir s root)"
    by auto
  have "lookup s (root @ [f]) \<noteq> None \<and> lookup s (root @ [f]) \<noteq> Some Dir" if "f \<in> set files" for f
    using that unfolding f by (simp add: scandir_set exists_def isdir_def)
  then show "x \<in> ?R" using x r by (auto simp: isdir_def)
next
  fix x assume "x \<in> ?R"
  then obtain root where r: "prefix source_dir root" "isdir s root"
    and x: "x = Makedirs (target_dir @ relpath root source_dir) \<or>
            (\<exists>f. lookup s (root @ [f]) \<noteq> None \<and> lookup s (root @ [f]) \<noteq> Some Dir \<and>
                 x = Copy (root @ [f])
                       ((target_dir @ relpath root source_dir) @ [new_filename f i]))"
    by (auto simp: isdir_def)
  from os_walk_complete[OF assms r(2,1)] obtain dirs files where
    e: "(root, dirs, files) \<in> set (os_walk s source_dir)" by force
  from os_walk_entry[OF e]
  have f: "files = filter (\<lambda>n. \<not> isdir s (root @ [n])) (scandir s root)" by simp
  have "f \<in> set files"
    if "lookup s (root @ [f]) \<noteq> None" "lookup s (root @ [f]) \<noteq> Some Dir" for f
    using that unfolding f by (simp add: scandir_set exists_def isdir_def)
  then show "x \<in> ?L" using x e unfolding pass_ops_mem by blast
qed

lemma exec_pass_state:
  assumes sep: "separate source_dir target_dir"
  shows "exec ops s = Inr s' \<Longrightarrow> wf_fs s \<Longrightarrow> pass_state m (set pre) (lookup s) \<Longrightarrow>
     topdown (map home (pre @ ops)) \<Longrightarrow> shaped source_dir target_dir (set (pre @ ops)) \<Longrightarrow>
     pass_state m (set (pre @ ops)) (lookup s') \<and> wf_fs s'"
proof (induction ops arbitrary: s pre)
  case Nil
  then show ?case by simp
next
  case (Cons x xs)
  from Cons.prems(1) obtain s1 where x: "prim s x = Inr s1" and xs: "exec xs s1 = Inr s'"
    by (auto split: sum.splits)
  have wf1: "wf_fs s1" using prim_dirs[OF Cons.prems(2) x] by simp
  have ps1: "pass_state m (set (pre @ [x])) (lookup s1)"
  proof (cases x)
    case (Makedirs name)
    then show ?thesis
      using pass_state_makedirs[OF Cons.prems(3,2), of name s1] x by simp
  next
    case (Copy src dst)
    have sh: "shaped source_dir target_dir (insert (Copy src dst) (set pre))"
      using shaped_subset[OF Cons.prems(5)] Copy by auto
    have "\<not> strict_prefix (home x) (home y)" if "y \<in> set pre" for y
      using topdown_before[of "map home pre" "home x" "map home xs" "home y"] Cons.prems(4) that
      by simp
    then have ord: "\<forall>y \<in> set pre. \<not> strict_prefix (butlast dst) (home y)"
      using Copy by simp
    show ?thesis
      using pass_state_copy[OF Cons.prems(3,2) sep sh ord] x Copy by simp
  qed
  from Cons.IH[OF xs wf1 ps1] Cons.prems(4,5)
  show ?case by simp
qed

lemma pass_determined:
  assumes sep: "separate source_dir target_dir"
    and s: "wf_fs s" "walk_loop source_dir target_dir i (os_walk s source_dir) s = Inr s'"
    and t: "wf_fs t" "walk_loop source_dir target_dir i (os_walk t source_dir) t = Inr t'"
    and eq: "lookup s = lookup t"
  shows "lookup s' = lookup t' \<and> wf_fs s' \<and> wf_fs t'"
proof -
  let ?m = "lookup s"
  have es: "exec (pass_ops source_dir target_dir i s) s = Inr s'"
    using s(2) by (simp add: walk_loop_exec pass_ops_def)
  have et: "exec (pass_ops source_dir target_dir i t) t = Inr t'"
    using t(2) by (simp add: walk_loop_exec pass_ops_def)
  have X: "set (pass_ops source_dir target_dir i s) = set (pass_ops source_dir target_dir i t)"
    unfolding pass_ops_set[OF s(1)] pass_ops_set[OF t(1)] eq ..
  have "pass_state ?m (set ([] @ pass_ops source_dir target_dir i s)) (lookup s') \<and> wf_fs s'"
    using exec_pass_state[OF sep es s(1), of ?m "[]"] pass_state_init[of ?m]
      pass_ops_topdown[of source_dir target_dir i s] pass_ops_shaped[of source_dir target_dir i s]
    by simp
  moreover
  have "pass_state ?m (set ([] @ pass_ops source_dir target_dir i t)) (lookup t') \<and> wf_fs t'"
    using exec_pass_state[OF sep et t(1), of ?m "[]"] pass_state_init[of ?m] eq
      pass_ops_topdown[of source_dir target_dir i t] pass_ops_shaped[of source_dir target_dir i t]
    by simp
  ultimately show ?thesis using X pass_state_unique by auto
qed

lemma copies_loop_determined:
  assumes sep: "separate source_dir target_dir"
  shows "wf_fs s \<Longrightarrow> wf_fs t \<Longrightarrow> lookup s = lookup t \<Longrightarrow>
     copies_loop source_dir target_dir xs s = Inr s' \<Longrightarrow>
     copies_loop source_dir target_dir xs t = Inr t' \<Longrightarrow> lookup s' = lookup t'"
proof (induction xs arbitrary: s t)
  case Nil
  then show ?case by simp
next
  case (Cons i xs)
  from Cons.prems(4) obtain s1 where
    s1: "walk_loop source_dir target_dir i (os_walk s source_dir) s = Inr s1"
    "copies_loop source_dir target_dir xs s1 = Inr s'"
    by (auto split: sum.splits)
  from Cons.prems(5) obtain t1 where
    t1: "walk_loop source_dir target_dir i (os_walk t source_dir) t = Inr t1"
    "copies_loop source_dir target_dir xs t1 = Inr t'"
    by (auto split: sum.splits)
  from pass_determined[OF sep Cons.prems(1) s1(1) Cons.prems(2) t1(1) Cons.prems(3)]
  have "lookup s1 = lookup t1" "wf_fs s1" "wf_fs t1" by simp_all
  then show ?case using Cons.IH s1(2) t1(2) by blast
qed

text \<open>
  C10, as stated, at a run that fails: the source tree holds the directories \<open>d1\<close> and
  \<open>d2\<close>, and a regular file occupies \<open>T/d2\<close>.  Both enumeration orders end in
  \<^verbatim>\<open>FileExistsError\<close>; the order that visits \<open>d1\<close> first leaves the directory \<open>T/d1\<close>
  behind, the other order does not.
\<close>

theorem C10_counterexample:
  "wf_fs fs_stop_a \<and> wf_fs fs_stop_b \<and> same_tree fs_stop_a fs_stop_b \<and>
   run [''S''] [''T''] 1 fs_stop_a = Inl (FileExistsError, fs_stop_a @ [([''T'', ''d1''], Dir)]) \<and>
   run [''S''] [''T''] 1 fs_stop_b = Inl (FileExistsError, fs_stop_b) \<and>
   isdir (fs_stop_a @ [([''T'', ''d1''], Dir)]) [''T'', ''d1''] \<and>
   \<not> exists fs_stop_b [''T'', ''d1'']"
  by code_simp

text \<open>
  C10, amended.  For separate source and target roots, two runs that both succeed, on
  the same tree and with the same copy count, end with the same tree, whatever the orders
  in which the directories and files are enumerated: the final tree is a function of the
  tree before the run and of the copy count.
\<close>

theorem C10_order_independent:
  assumes "wf_fs fs1" and "wf_fs fs2" and "same_tree fs1 fs2"
    and "separate source_dir target_dir"
    and "run source_dir target_dir n fs1 = Inr fs1'"
    and "run source_dir target_dir n fs2 = Inr fs2'"
  shows "same_tree fs1' fs2'"
proof -
  from assms(5) obtain s where s: "makedirs fs1 target_dir = Inr s"
    "copies_loop source_dir target_dir [0..<n] s = Inr fs1'"
    by (auto simp: run_def split: sum.splits)
  from assms(6) obtain t where t: "makedirs fs2 target_dir = Inr t"
    "copies_loop source_dir target_dir [0..<n] t = Inr fs2'"
    by (auto simp: run_def split: sum.splits)
  have eq: "lookup fs1 = lookup fs2" using assms(3) by (simp add: same_tree_iff)
  note ss = makedirs_step[OF assms(1) s(1)]
  note tt = makedirs_step[OF assms(2) t(1)]
  have "lookup s = lookup t"
    by (rule ext) (simp add: ss(3) tt(3) eq)
  from copies_loop_determined[OF assms(4) ss(1) tt(1) this s(2) t(2)]
  show ?thesis by (simp add: same_tree_iff)
qed

theorem C10_order_independent_witness:
  "wf_fs fs_walk_a \<and> wf_fs fs_walk_b \<and> same_tree fs_walk_a fs_walk_b
   \<and> separate [''S''] [''T'']
   \<and> run [''S''] [''T''] 2 fs_walk_a = Inr fs_walk_a_copied
   \<and> run [''S''] [''T''] 2 fs_walk_b = Inr fs_walk_b_copied
   \<and> fs_walk_a_copied \<noteq> fs_walk_b_copied
   \<and> same_tree fs_walk_a_copied fs_walk_b_copied"
proof -
  have h: "wf_fs fs_walk_a" "wf_fs fs_walk_b" "same_tree fs_walk_a fs_walk_b"
    "separate [''S''] [''T'']"
    "run [''S''] [''T''] 2 fs_walk_a = Inr fs_walk_a_copied"
    "run [''S''] [''T''] 2 fs_walk_b = Inr fs_walk_b_copied"
    by code_simp+
  have d: "fs_walk_a_copied \<noteq> fs_walk_b_copied" by code_simp
  from C10_order_independent[OF h] h d show ?thesis by blast
qed

end
